theory Spec2Isabelle
  imports Complex_Main "HOL-Library.Signed_Division"
begin

section \<open>Local interpolation kernel of \<^verbatim>\<open>fem/gslib/interpolate_local_3.cpp\<close>\<close>

text \<open>
  The development embeds the three functions of the source file,
  \<^verbatim>\<open>lagrange_eval\<close>, \<^verbatim>\<open>InterpolateLocal3DKernel\<close> and
  \<^verbatim>\<open>FindPointsGSLIB::InterpolateLocal3\<close>, as functions on explicit buffers.

  Conventions of the embedding:
  \<^item> \<^verbatim>\<open>double\<close> is \<^typ>\<open>real\<close>: arithmetic is exact, rounding is not modelled.
  \<^item> \<^verbatim>\<open>int\<close> is \<^typ>\<open>int\<close>, without wrap-around. The buffers of MFEM have an
    \<^verbatim>\<open>int\<close> size, and for an access inside its buffer every index expression of the
    kernel is a sum of non-negative terms, each at most the index: none of them leaves
    the range of \<^verbatim>\<open>int\<close>. The one integer operation whose range is written out is the
    shift \<^verbatim>\<open>1 << (p_Nq - 1)\<close>.
  \<^item> A buffer is a list. An access outside the buffer, a read of a shared cell that was
    never written, a shift outside the range of \<^verbatim>\<open>int\<close> and a division by zero are
    undefined behaviour in the source; the model returns \<open>Inl Undefined_behaviour\<close>.
  \<^item> \<^verbatim>\<open>MFEM_VERIFY\<close> aborts the program with its message; the model returns
    \<open>Inl (Verify_failed msg)\<close>.
\<close>

subsection \<open>Results, buffers and loops\<close>

datatype error = Verify_failed string | Undefined_behaviour

definition thn :: "error + 'a \<Rightarrow> ('a \<Rightarrow> error + 'b) \<Rightarrow> error + 'b" where
  "thn m f = (case m of Inl e \<Rightarrow> Inl e | Inr v \<Rightarrow> f v)"

definition rd :: "'a list \<Rightarrow> int \<Rightarrow> error + 'a" where
  "rd a i = (if 0 \<le> i \<and> i < int (length a) then Inr (a ! nat i) else Inl Undefined_behaviour)"

definition wr :: "'a list \<Rightarrow> int \<Rightarrow> 'a \<Rightarrow> error + 'a list" where
  "wr a i v = (if 0 \<le> i \<and> i < int (length a) then Inr (a[nat i := v]) else Inl Undefined_behaviour)"

text \<open>
  A \<^verbatim>\<open>MFEM_SHARED\<close> array is declared without an initialiser: a cell holds \<open>None\<close>
  until its first write, and reading \<open>None\<close> is undefined.
\<close>

definition rd_sh :: "real option list \<Rightarrow> int \<Rightarrow> error + real" where
  "rd_sh a i = thn (rd a i) (\<lambda>c. case c of None \<Rightarrow> Inl Undefined_behaviour | Some v \<Rightarrow> Inr v)"

definition wr_sh :: "real option list \<Rightarrow> int \<Rightarrow> real \<Rightarrow> error + real option list" where
  "wr_sh a i v = wr a i (Some v)"

text \<open>\<^verbatim>\<open>a << n\<close> on \<^verbatim>\<open>int\<close> (32 bits): defined when the result is representable.\<close>

definition shl :: "int \<Rightarrow> int \<Rightarrow> error + int" where
  "shl a n = (if 0 \<le> a \<and> 0 \<le> n \<and> n < 32 \<and> a * 2 ^ nat n < 2 ^ 31
              then Inr (a * 2 ^ nat n) else Inl Undefined_behaviour)"

fun forM :: "'i list \<Rightarrow> ('i \<Rightarrow> 's \<Rightarrow> error + 's) \<Rightarrow> 's \<Rightarrow> error + 's" where
  "forM [] body s = Inr s"
| "forM (i # is) body s = thn (body i s) (forM is body)"

text \<open>\<^verbatim>\<open>for (int j = 0; j < n; ++j) body\<close>, the loop state passed through.\<close>

definition for_loop :: "int \<Rightarrow> (int \<Rightarrow> 's \<Rightarrow> error + 's) \<Rightarrow> 's \<Rightarrow> error + 's" where
  "for_loop n body = forM [0..n - 1] body"

text \<open>
  Modelled from the spec: \<^verbatim>\<open>forall_2D(N, X, Y, body)\<close> of \<^verbatim>\<open>general/forall.hpp\<close>, which
  is not part of the source file. Following section 9 of the specification (a
  sequential implementation runs one unit of work per point, the phases in order), it
  runs \<open>body\<close> for \<open>i = 0, ..., N - 1\<close>; \<open>X\<close> and \<open>Y\<close> only size the block of lanes.
\<close>

definition forall_2D :: "int \<Rightarrow> int \<Rightarrow> int \<Rightarrow> (int \<Rightarrow> 's \<Rightarrow> error + 's) \<Rightarrow> 's \<Rightarrow> error + 's" where
  "forall_2D N X Y body = for_loop N body"

text \<open>
  Modelled from the spec: the macro \<^verbatim>\<open>MFEM_FOREACH_THREAD(j, x, n)\<close> of
  \<^verbatim>\<open>general/forall.hpp\<close>: the lanes \<open>j = 0, ..., n - 1\<close>, one after the other.
  \<^verbatim>\<open>MFEM_SYNC_THREAD\<close>, the barrier between the phases, then does nothing.
\<close>

definition MFEM_FOREACH_THREAD :: "int \<Rightarrow> (int \<Rightarrow> 's \<Rightarrow> error + 's) \<Rightarrow> 's \<Rightarrow> error + 's" where
  "MFEM_FOREACH_THREAD n body = for_loop n body"

text \<open>
  Modelled from the spec: the macro \<^verbatim>\<open>MFEM_VERIFY(c, msg)\<close> of \<^verbatim>\<open>general/error.hpp\<close>:
  a fatal abort with the message \<open>msg\<close> unless \<open>c\<close> holds (section 7 of the
  specification).
\<close>

definition MFEM_VERIFY :: "bool \<Rightarrow> string \<Rightarrow> error + unit" where
  "MFEM_VERIFY c msg = (if c then Inr () else Inl (Verify_failed msg))"

subsection \<open>The buffers of one invocation\<close>

text \<open>
  The six buffers the kernel receives as pointers, under the kernel's parameter names.
  They are distinct objects of the caller (\<^verbatim>\<open>field_in\<close>, \<^verbatim>\<open>gsl_elem_dev_l\<close>,
  \<^verbatim>\<open>gsl_ref_l\<close>, \<^verbatim>\<open>field_out\<close>, \<^verbatim>\<open>DEV.gll1d_sol\<close>, \<^verbatim>\<open>DEV.lagcoeff_sol\<close>).
\<close>

record memory =
  gf_in :: "real list"
  el :: "int list"
  r :: "real list"
  int_out :: "real list"
  gll1D :: "real list"
  lagcoeff :: "real list"

subsection \<open>\<^verbatim>\<open>lagrange_eval\<close>\<close>

text \<open>
  The pointer \<open>p0\<close> is an array together with the offset it points to (the kernel passes
  \<^verbatim>\<open>wtr + k*D1D\<close>); the result is the array after the store to \<^verbatim>\<open>p0[i]\<close>.
\<close>

definition lagrange_eval ::
  "real option list \<times> int \<Rightarrow> real \<Rightarrow> int \<Rightarrow> int \<Rightarrow> real list \<Rightarrow> real list \<Rightarrow> error + real option list" where
  "lagrange_eval p0 x i p_Nq z lagrangeCoeff =
     thn (shl 1 (p_Nq - 1)) (\<lambda>p.
     thn (for_loop p_Nq (\<lambda>j p_i.
            thn (rd z j) (\<lambda>zj.
            let d_j = x - zj in Inr (p_i * (if j = i then 1 else d_j))))
          (real_of_int p)) (\<lambda>p_i.
     thn (rd lagrangeCoeff i) (\<lambda>c.
     wr_sh (fst p0) (snd p0 + i) (c * p_i))))"

subsection \<open>\<^verbatim>\<open>InterpolateLocal3DKernel\<close>\<close>

text \<open>Lines 62 to 75: the basis functions at the reference coordinates of point \<open>i\<close>.\<close>

definition basis_phase :: "int \<Rightarrow> int \<Rightarrow> memory \<Rightarrow> real option list \<Rightarrow> error + real option list" where
  "basis_phase i D1D m =
     MFEM_FOREACH_THREAD D1D (\<lambda>j.
       MFEM_FOREACH_THREAD D1D (\<lambda>k wtr.
         thn (if k \<le> 2
              then thn (rd (r m) (3*i + k)) (\<lambda>x.
                     lagrange_eval (wtr, k*D1D) x j D1D (gll1D m) (lagcoeff m))
              else Inr wtr) (\<lambda>wtr.
         if D1D = 2 \<and> k = 1
         then thn (rd (r m) (3*i + 2)) (\<lambda>x.
                lagrange_eval (wtr, 2*D1D) x j D1D (gll1D m) (lagcoeff m))
         else Inr wtr)))"

text \<open>
  Lines 84 to 96: the partial sums of one field component, one per lane \<open>(j, k)\<close>.
  The shared array \<^verbatim>\<open>sums\<close> of the source is \<open>sums_buf\<close> here (\<open>sums\<close> is a constant
  of HOL).
\<close>

definition contract_phase ::
  "int \<Rightarrow> int \<Rightarrow> real list \<Rightarrow> real option list \<Rightarrow> real option list \<Rightarrow> error + real option list" where
  "contract_phase D1D elemOffset gf wtr =
     MFEM_FOREACH_THREAD D1D (\<lambda>j.
       MFEM_FOREACH_THREAD D1D (\<lambda>k sums_buf.
         thn (wr_sh sums_buf (j + k*D1D) 0) (\<lambda>sums_buf.
         thn (for_loop D1D (\<lambda>l sums_buf.
                thn (rd_sh sums_buf (j + k*D1D)) (\<lambda>s.
                thn (rd gf (elemOffset + j + k*D1D + l*D1D*D1D)) (\<lambda>g.
                thn (rd_sh wtr (2*D1D + l)) (\<lambda>w.
                wr_sh sums_buf (j + k*D1D) (s + g * w))))) sums_buf) (\<lambda>sums_buf.
         thn (rd_sh sums_buf (j + k*D1D)) (\<lambda>s.
         thn (rd_sh wtr (D1D + k)) (\<lambda>w1.
         thn (rd_sh wtr j) (\<lambda>w0.
         wr_sh sums_buf (j + k*D1D) (s * (w1 * w0)))))))))"

text \<open>Lines 99 to 113: lane \<open>(0, 0)\<close> adds the partial sums and stores the result.\<close>

definition reduce_phase ::
  "int \<Rightarrow> int \<Rightarrow> int \<Rightarrow> int \<Rightarrow> real option list \<Rightarrow> memory \<Rightarrow> error + memory" where
  "reduce_phase D1D i fld npt sums_buf =
     MFEM_FOREACH_THREAD D1D (\<lambda>j.
       MFEM_FOREACH_THREAD D1D (\<lambda>k m.
         if j = 0 \<and> k = 0
         then thn (for_loop (D1D*D1D) (\<lambda>jj sumv.
                     thn (rd_sh sums_buf jj) (\<lambda>s. Inr (sumv + s))) 0) (\<lambda>sumv.
              thn (wr (int_out m) (i + fld * npt) sumv) (\<lambda>out.
              Inr (m\<lparr>int_out := out\<rparr>)))
         else Inr m))"

text \<open>Lines 57 to 116: the body of the \<^verbatim>\<open>forall_2D\<close>, the work for point \<open>i\<close>.\<close>

definition kernel_body ::
  "int \<Rightarrow> int \<Rightarrow> int \<Rightarrow> int \<Rightarrow> int \<Rightarrow> int \<Rightarrow> memory \<Rightarrow> error + memory" where
  "kernel_body MD1 D1D Nfields npt p_Np i m =
     (let wtr = replicate (nat (3*MD1)) None;
          sums_buf = replicate (nat (MD1*MD1)) None in
      thn (basis_phase i D1D m wtr) (\<lambda>wtr.
      thn (for_loop Nfields (\<lambda>fld (sums_buf, m).
             thn (rd (el m) i) (\<lambda>e.
             let elemOffset = e * p_Np * Nfields + fld * p_Np in
             thn (contract_phase D1D elemOffset (gf_in m) wtr sums_buf) (\<lambda>sums_buf.
             thn (reduce_phase D1D i fld npt sums_buf m) (\<lambda>m.
             Inr (sums_buf, m))))) (sums_buf, m)) (\<lambda>(sums_buf, m).
      Inr m)))"

text \<open>
  The template parameter \<open>T_D1D\<close> is the first argument; \<open>pN\<close> is the last, as in the
  source. The argument \<open>m\<close> holds the buffers behind the six pointer parameters.
\<close>

definition InterpolateLocal3DKernel ::
  "int \<Rightarrow> memory \<Rightarrow> int \<Rightarrow> int \<Rightarrow> int \<Rightarrow> int \<Rightarrow> int \<Rightarrow> error + memory" where
  "InterpolateLocal3DKernel T_D1D m npt ncomp nel gf_offset pN =
     (let Nfields = ncomp;
          MD1 = (if T_D1D \<noteq> 0 then T_D1D else 10);
          D1D = (if T_D1D \<noteq> 0 then T_D1D else pN);
          p_Np = D1D*D1D*D1D in
      thn (MFEM_VERIFY (MD1 \<le> 10) ''Increase Max allowable polynomial order.'') (\<lambda>_.
      thn (MFEM_VERIFY (D1D \<noteq> 0) ''Polynomial order not specified.'') (\<lambda>_.
      forall_2D npt D1D D1D (kernel_body MD1 D1D Nfields npt p_Np) m)))"

subsection \<open>\<^verbatim>\<open>FindPointsGSLIB::InterpolateLocal3\<close>\<close>

text \<open>
  \<open>m\<close> holds \<^verbatim>\<open>field_in\<close>, \<^verbatim>\<open>gsl_elem_dev_l\<close>, \<^verbatim>\<open>gsl_ref_l\<close>, \<^verbatim>\<open>field_out\<close> and the two
  tables of \<^verbatim>\<open>DEV\<close>. \<^verbatim>\<open>field_in.Size()/ncomp\<close> is the truncating division of C++.
\<close>

definition InterpolateLocal3 :: "memory \<Rightarrow> int \<Rightarrow> int \<Rightarrow> int \<Rightarrow> int \<Rightarrow> error + memory" where
  "InterpolateLocal3 m npt ncomp nel dof1Dsol =
     (if npt = 0 then Inr m
      else if ncomp = 0 then Inl Undefined_behaviour
      else
        let gf_offset = int (length (gf_in m)) sdiv ncomp in
        if dof1Dsol = 2 then InterpolateLocal3DKernel 2 m npt ncomp nel gf_offset 0
        else if dof1Dsol = 3 then InterpolateLocal3DKernel 3 m npt ncomp nel gf_offset 0
        else if dof1Dsol = 4 then InterpolateLocal3DKernel 4 m npt ncomp nel gf_offset 0
        else if dof1Dsol = 5 then InterpolateLocal3DKernel 5 m npt ncomp nel gf_offset 0
        else InterpolateLocal3DKernel 0 m npt ncomp nel gf_offset dof1Dsol)"

subsection \<open>Values the specification names\<close>

text \<open>
  The value of the \<open>i\<close>-th Lagrange basis polynomial at \<open>x\<close> as the specification writes
  it: the coefficient, the normalisation \<open>2 ^ (p_Nq - 1)\<close>, and the product of the
  differences to all other nodes.
\<close>

definition basis_value :: "real list \<Rightarrow> real list \<Rightarrow> int \<Rightarrow> real \<Rightarrow> int \<Rightarrow> real" where
  "basis_value z c p_Nq x i =
     c ! nat i * 2 ^ nat (p_Nq - 1) * (\<Prod>j \<in> {0..<p_Nq} - {i}. x - z ! nat j)"

text \<open>A coefficient table is consistent with a node table when every basis function is 1 at its node.\<close>

definition table_consistent :: "real list \<Rightarrow> real list \<Rightarrow> int \<Rightarrow> bool" where
  "table_consistent z c D1D \<longleftrightarrow>
     (\<forall>i \<in> {0..<D1D}.
        c ! nat i * 2 ^ nat (D1D - 1) * (\<Prod>j \<in> {0..<D1D} - {i}. z ! nat i - z ! nat j) = 1)"

text \<open>
  The weight \<open>w\<^sub>d(q)\<close> of point \<open>i\<close>: the basis function \<open>q\<close> at the \<open>d\<close>-th reference
  coordinate of the point.
\<close>

definition weight :: "memory \<Rightarrow> int \<Rightarrow> int \<Rightarrow> int \<Rightarrow> int \<Rightarrow> real" where
  "weight m D1D i d q = basis_value (gll1D m) (lagcoeff m) D1D (r m ! nat (3*i + d)) q"

text \<open>
  The interpolated value of component \<open>fld\<close> at point \<open>i\<close> as the specification states it:
  the sum over the tensor index \<open>(j, k, l)\<close> of nodal value times the three weights, the
  nodal values laid out element-major, then component-major, then \<open>j + k D1D + l D1D\<^sup>2\<close>.
\<close>

definition interpolant :: "memory \<Rightarrow> int \<Rightarrow> int \<Rightarrow> int \<Rightarrow> int \<Rightarrow> real" where
  "interpolant m D1D ncomp i fld =
     (\<Sum>j \<in> {0..<D1D}. \<Sum>k \<in> {0..<D1D}. \<Sum>l \<in> {0..<D1D}.
        gf_in m ! nat (el m ! nat i * D1D^3 * ncomp + fld * D1D^3 + j + k*D1D + l*D1D^2)
        * weight m D1D i 0 j * weight m D1D i 1 k * weight m D1D i 2 l)"

text \<open>
  The same value in the order the kernel adds it up: per lane \<open>(j, k)\<close> the sum over
  \<open>l\<close>, scaled by \<open>w\<^sub>1(k) w\<^sub>0(j)\<close>, then the sum of the lanes over the flat index
  \<open>j + k D1D\<close>.
\<close>

definition lane_sum :: "real list \<Rightarrow> int \<Rightarrow> int \<Rightarrow> (int \<Rightarrow> int \<Rightarrow> real) \<Rightarrow> int \<Rightarrow> int \<Rightarrow> real" where
  "lane_sum gf elemOffset D1D w j k =
     (\<Sum>l \<in> {0..<D1D}. gf ! nat (elemOffset + j + k*D1D + l*D1D*D1D) * w 2 l) * (w 1 k * w 0 j)"

definition factorized :: "memory \<Rightarrow> int \<Rightarrow> int \<Rightarrow> int \<Rightarrow> int \<Rightarrow> real" where
  "factorized m D1D ncomp i fld =
     (\<Sum>jj \<in> {0..<D1D * D1D}.
        lane_sum (gf_in m) (el m ! nat i * (D1D*D1D*D1D) * ncomp + fld * (D1D*D1D*D1D)) D1D
          (weight m D1D i) (jj mod D1D) (jj div D1D))"

text \<open>
  The invariants of the data model (sections 3 and 6 of the specification): a supported
  degree, buffers at least as long as the invocation needs, and element indices that
  address elements of the field buffer.
\<close>

definition valid_invocation :: "memory \<Rightarrow> int \<Rightarrow> int \<Rightarrow> int \<Rightarrow> int \<Rightarrow> bool" where
  "valid_invocation m npt ncomp nel D1D \<longleftrightarrow>
     2 \<le> D1D \<and> D1D \<le> 10 \<and>
     npt \<le> int (length (el m)) \<and> 3 * npt \<le> int (length (r m)) \<and>
     npt * ncomp \<le> int (length (int_out m)) \<and>
     nel * ncomp * D1D^3 \<le> int (length (gf_in m)) \<and>
     D1D \<le> int (length (gll1D m)) \<and> D1D \<le> int (length (lagcoeff m)) \<and>
     (\<forall>e \<in> set (take (nat npt) (el m)). 0 \<le> e \<and> e < nel)"

subsection \<open>Relations between buffers\<close>

text \<open>The five input buffers of \<open>m'\<close> are those of \<open>m\<close>, and the output buffer has kept its length.\<close>

definition same_inputs :: "memory \<Rightarrow> memory \<Rightarrow> bool" where
  "same_inputs m m' \<longleftrightarrow>
     gf_in m' = gf_in m \<and> el m' = el m \<and> r m' = r m \<and> gll1D m' = gll1D m \<and>
     lagcoeff m' = lagcoeff m \<and> length (int_out m') = length (int_out m)"

text \<open>
  The sub-buffer of component \<open>c\<close>: for each element in turn, the block of \<open>D1D\<^sup>3\<close> nodal
  values at offset \<open>c D1D\<^sup>3\<close> inside the element's block of \<open>ncomp D1D\<^sup>3\<close> values.
\<close>

definition component_buffer :: "real list \<Rightarrow> int \<Rightarrow> int \<Rightarrow> int \<Rightarrow> int \<Rightarrow> real list" where
  "component_buffer gf nel ncomp D1D c =
     concat (map (\<lambda>e. take (nat (D1D^3)) (drop (nat (int e * ncomp * D1D^3 + c * D1D^3)) gf))
               [0..<nat nel])"

text \<open>Two arrays that hold the same first \<open>n\<close> cells.\<close>

definition agree :: "nat \<Rightarrow> 'a list \<Rightarrow> 'a list \<Rightarrow> bool" where
  "agree n a b \<longleftrightarrow> n \<le> length a \<and> n \<le> length b \<and> take n a = take n b"

section \<open>Basic facts\<close>

lemma thn_Inl [simp]: "thn (Inl e) f = Inl e"
  by (simp add: thn_def)

lemma thn_Inr [simp]: "thn (Inr v) f = f v"
  by (simp add: thn_def)

lemma thn_eq_Inr: "thn m f = Inr y \<longleftrightarrow> (\<exists>v. m = Inr v \<and> f v = Inr y)"
  by (cases m) simp_all

lemma forM_append: "forM (xs @ ys) body s = thn (forM xs body s) (forM ys body)"
  by (induction xs arbitrary: s) (simp_all add: thn_def split: sum.splits)

lemma for_loop_le0 [simp]: "n \<le> 0 \<Longrightarrow> for_loop n body s = Inr s"
  by (simp add: for_loop_def)

lemma for_loop_step: "0 \<le> n \<Longrightarrow> for_loop (n + 1) body s = thn (for_loop n body s) (body n)"
proof -
  assume "0 \<le> n"
  then have "[0..n + 1 - 1] = [0..n - 1] @ [n]"
    using upto_rec2 [of 0 n] by simp
  then show ?thesis
    by (simp add: for_loop_def forM_append thn_def split: sum.splits)
qed

text \<open>The loop rule: an invariant indexed by the number of iterations done.\<close>

lemma for_loop_rule:
  assumes n: "0 \<le> n" and init: "P 0 s"
    and step: "\<And>i t. 0 \<le> i \<Longrightarrow> i < n \<Longrightarrow> P i t \<Longrightarrow> \<exists>t'. body i t = Inr t' \<and> P (i + 1) t'"
  shows "\<exists>s'. for_loop n body s = Inr s' \<and> P n s'"
proof -
  have "0 \<le> k \<Longrightarrow> k \<le> n \<Longrightarrow> \<exists>s'. for_loop k body s = Inr s' \<and> P k s'" for k
  proof (induction k rule: int_ge_induct)
    case base
    then show ?case using init by simp
  next
    case (step k)
    then obtain t where t: "for_loop k body s = Inr t" "P k t" by auto
    from step.prems step.hyps have "k < n" by simp
    from assms(3) [OF step.hyps this t(2)] obtain t' where "body k t = Inr t'" "P (k + 1) t'"
      by blast
    then show ?case using t step.hyps by (simp add: for_loop_step)
  qed
  from this [of n] n show ?thesis by simp
qed

text \<open>Unfolding the whole model, and integer intervals, on concrete inputs.\<close>

lemma interval_upto: "{a..<b::int} = set [a..b - 1]"
  by auto

lemmas interval_eval = interval_upto upto_rec1 insert_Diff_if

lemmas kernel_eval =
  InterpolateLocal3DKernel_def MFEM_VERIFY_def forall_2D_def for_loop_def
  kernel_body_def basis_phase_def contract_phase_def reduce_phase_def MFEM_FOREACH_THREAD_def
  lagrange_eval_def shl_def rd_def wr_def rd_sh_def wr_sh_def upto_rec1 Let_def

section \<open>The basis evaluator\<close>

lemma shl_one: "0 \<le> n \<Longrightarrow> n \<le> 30 \<Longrightarrow> shl 1 n = Inr (2 ^ nat n)"
proof -
  assume a: "0 \<le> n" "n \<le> 30"
  then have "nat n < 31" by simp
  then have "(2::int) ^ nat n < 2 ^ 31"
    by (rule power_strict_increasing) simp
  with a show ?thesis by (simp add: shl_def)
qed

lemma lagrange_loop:
  assumes "0 \<le> n" "n \<le> int (length z)"
  shows "for_loop n (\<lambda>j p_i. thn (rd z j) (\<lambda>zj.
            let d_j = x - zj in Inr (p_i * (if j = i then 1 else d_j)))) p
         = Inr (p * (\<Prod>j \<in> {0..<n} - {i}. x - z ! nat j))"
proof -
  let ?body = "\<lambda>j p_i. thn (rd z j) (\<lambda>zj.
            let d_j = x - zj in Inr (p_i * (if j = i then 1 else d_j)))"
  have "\<exists>s'. for_loop n ?body p = Inr s' \<and> s' = p * (\<Prod>j \<in> {0..<n} - {i}. x - z ! nat j)"
  proof (rule for_loop_rule [where P = "\<lambda>k s. s = p * (\<Prod>j \<in> {0..<k} - {i}. x - z ! nat j)"])
    show "0 \<le> n" by fact
    show "p = p * (\<Prod>j \<in> {0..<0} - {i}. x - z ! nat j)" by simp
  next
    fix k t
    assume k: "0 \<le> k" "k < n" and t: "t = p * (\<Prod>j \<in> {0..<k} - {i}. x - z ! nat j)"
    have set: "{0..<k + 1} - {i} = (if k = i then {0..<k} - {i} else insert k ({0..<k} - {i}))"
      using k by auto
    show "\<exists>t'. ?body k t = Inr t' \<and> t' = p * (\<Prod>j \<in> {0..<k + 1} - {i}. x - z ! nat j)"
      using k assms t by (simp add: rd_def set mult_ac)
  qed
  then show ?thesis by simp
qed

lemma lagrange_eval_result:
  assumes "0 \<le> i" "i < p_Nq" "p_Nq \<le> 31"
    and "p_Nq \<le> int (length z)" "i < int (length lagrangeCoeff)"
    and "0 \<le> off + i" "off + i < int (length p0)"
  shows "lagrange_eval (p0, off) x i p_Nq z lagrangeCoeff
         = Inr (p0[nat (off + i) := Some (basis_value z lagrangeCoeff p_Nq x i)])"
proof -
  have "shl 1 (p_Nq - 1) = Inr (2 ^ nat (p_Nq - 1))"
    using assms by (intro shl_one) simp_all
  moreover have "for_loop p_Nq (\<lambda>j p_i. thn (rd z j) (\<lambda>zj.
            let d_j = x - zj in Inr (p_i * (if j = i then 1 else d_j)))) (real_of_int (2 ^ nat (p_Nq - 1)))
         = Inr (real_of_int (2 ^ nat (p_Nq - 1)) * (\<Prod>j \<in> {0..<p_Nq} - {i}. x - z ! nat j))"
    using assms by (intro lagrange_loop) simp_all
  moreover have "rd lagrangeCoeff i = Inr (lagrangeCoeff ! nat i)"
    using assms by (simp add: rd_def)
  ultimately show ?thesis
    using assms
    by (simp add: lagrange_eval_def wr_sh_def wr_def basis_value_def mult_ac)
qed





section \<open>Dispatch and precondition checks\<close>

text \<open>
  Claim C8. With \<open>npt = 0\<close>, \<^verbatim>\<open>InterpolateLocal3\<close> returns at its first statement: it
  does not fail, and every buffer, the output buffer among them, is as it was.
\<close>

theorem InterpolateLocal3_no_points:
  "InterpolateLocal3 m 0 ncomp nel dof1Dsol = Inr m"
  by (simp add: InterpolateLocal3_def)

text \<open>
  Claim C10. The result of the kernel does not depend on the argument \<open>gf_offset\<close>: two
  runs that differ only there return the same buffers (or fail in the same way).
\<close>

theorem kernel_ignores_gf_offset:
  "InterpolateLocal3DKernel T_D1D m npt ncomp nel gf_offset pN
   = InterpolateLocal3DKernel T_D1D m npt ncomp nel gf_offset' pN"
  by (simp add: InterpolateLocal3DKernel_def)

text \<open>The two checks of lines 54 and 55, path by path.\<close>

lemma unspecified_degree_aborts:
  "InterpolateLocal3DKernel 0 m npt ncomp nel gf_offset 0
   = Inl (Verify_failed ''Polynomial order not specified.'')"
  by (simp add: InterpolateLocal3DKernel_def MFEM_VERIFY_def)

lemma specialised_above_maximum_aborts:
  "10 < T_D1D \<Longrightarrow> InterpolateLocal3DKernel T_D1D m npt ncomp nel gf_offset pN
   = Inl (Verify_failed ''Increase Max allowable polynomial order.'')"
  by (simp add: InterpolateLocal3DKernel_def MFEM_VERIFY_def)

lemma generic_checks_pass:
  "pN \<noteq> 0 \<Longrightarrow> InterpolateLocal3DKernel 0 m npt ncomp nel gf_offset pN
   = forall_2D npt pN pN (kernel_body 10 pN ncomp npt (pN*pN*pN)) m"
  by (simp add: InterpolateLocal3DKernel_def MFEM_VERIFY_def)

text \<open>
  Claim C2 says that a degree above the maximum of 10 aborts at invocation time, before
  any point is processed, on the generic path in particular. The source does not do
  that: the check of line 54 compares \<open>MD1\<close>, not \<open>D1D\<close>, with 10, and on the generic
  path \<open>MD1\<close> is the constant 10. A call with degree 11 passes both checks and starts on
  the first point, where the store of basis value 8 of the third direction falls behind
  the end of \<^verbatim>\<open>wtr[3*MD1]\<close>: the behaviour of the run is undefined, and no
  \<^verbatim>\<open>MFEM_VERIFY\<close> has aborted it.
\<close>

theorem degree_11_not_rejected:
  "InterpolateLocal3 \<lparr>gf_in = replicate 1331 0, el = [0], r = [0, 0, 0], int_out = [0],
       gll1D = replicate 11 0, lagcoeff = replicate 11 0\<rparr> 1 1 1 11
   = Inl Undefined_behaviour"
  by (simp add: InterpolateLocal3_def kernel_eval)

section \<open>Worked example\<close>

text \<open>
  Claim C6. One element of degree \<open>D1D = 2\<close> with nodes \<open>-1, 1\<close>, coefficients consistent
  with these nodes, nodal values \<open>1, ..., 8\<close> by increasing tensor index, one component,
  one point in element 0 at the reference centre \<open>(0, 0, 0)\<close>: the kernel, specialised
  or generic, writes exactly \<open>9/2\<close> into the output slot of the point.
\<close>

theorem worked_example_mean:
  assumes "table_consistent [-1, 1] [c0, c1] 2"
  shows "InterpolateLocal3DKernel 2
           \<lparr>gf_in = [1, 2, 3, 4, 5, 6, 7, 8], el = [0], r = [0, 0, 0], int_out = [v],
            gll1D = [-1, 1], lagcoeff = [c0, c1]\<rparr> 1 1 1 gf_offset 0
         = Inr \<lparr>gf_in = [1, 2, 3, 4, 5, 6, 7, 8], el = [0], r = [0, 0, 0], int_out = [9/2],
            gll1D = [-1, 1], lagcoeff = [c0, c1]\<rparr>
       \<and> InterpolateLocal3DKernel 0
           \<lparr>gf_in = [1, 2, 3, 4, 5, 6, 7, 8], el = [0], r = [0, 0, 0], int_out = [v],
            gll1D = [-1, 1], lagcoeff = [c0, c1]\<rparr> 1 1 1 gf_offset 2
         = Inr \<lparr>gf_in = [1, 2, 3, 4, 5, 6, 7, 8], el = [0], r = [0, 0, 0], int_out = [9/2],
            gll1D = [-1, 1], lagcoeff = [c0, c1]\<rparr>"
proof -
  from assms have c: "c0 = - 1/4" "c1 = 1/4"
    by (simp_all add: table_consistent_def interval_eval)
  show ?thesis
    unfolding c by (simp add: kernel_eval)
qed

theorem worked_example_mean_witness:
  "table_consistent [-1, 1] [-1/4, 1/4] 2
   \<and> InterpolateLocal3DKernel 2
           \<lparr>gf_in = [1, 2, 3, 4, 5, 6, 7, 8], el = [0], r = [0, 0, 0], int_out = [0],
            gll1D = [-1, 1], lagcoeff = [-1/4, 1/4]\<rparr> 1 1 1 8 0
         = Inr \<lparr>gf_in = [1, 2, 3, 4, 5, 6, 7, 8], el = [0], r = [0, 0, 0], int_out = [9/2],
            gll1D = [-1, 1], lagcoeff = [-1/4, 1/4]\<rparr>"
proof -
  have c: "table_consistent [-1, 1] [-1/4, 1/4] 2"
    by (simp add: table_consistent_def interval_eval)
  show ?thesis
    using c worked_example_mean [of "-1/4" "1/4" 0 8] by simp
qed

section \<open>The three phases of the kernel\<close>

subsection \<open>Basis phase\<close>

lemma idx_inj:
  fixes d d' q q' D :: int
  assumes "0 \<le> q" "q < D" "0 \<le> q'" "q' < D" "d * D + q = d' * D + q'"
  shows "d = d' \<and> q = q'"
proof -
  have D: "D \<noteq> 0" using assms by auto
  have "(q + d * D) div D = d + q div D" "(q' + d' * D) div D = d' + q' div D"
    using D by (rule div_mult_self1)+
  moreover have "q div D = 0" "q' div D = 0"
    using assms by (simp_all add: div_pos_pos_trivial)
  moreover have "q + d * D = q' + d' * D" using assms by (simp add: add.commute)
  ultimately have "d = d'" by simp
  with assms show ?thesis by simp
qed

lemma nat_idx_eq_iff:
  fixes d d' q q' D :: int
  assumes "0 \<le> d" "0 \<le> d'" "0 \<le> q" "q < D" "0 \<le> q'" "q' < D"
  shows "nat (d * D + q) = nat (d' * D + q') \<longleftrightarrow> d = d' \<and> q = q'"
proof -
  have "0 \<le> d * D" "0 \<le> d' * D" using assms by simp_all
  then have "nat (d * D + q) = nat (d' * D + q') \<longleftrightarrow> d * D + q = d' * D + q'"
    using assms by (simp add: nat_eq_iff)
  then show ?thesis using idx_inj [OF assms(3-6)] by blast
qed

lemma basis_step:
  assumes D: "2 \<le> D1D" "D1D \<le> 31" and j: "0 \<le> j" "j < D1D" and k: "0 \<le> k" "k < D1D"
    and len: "3 * D1D \<le> int (length w)"
    and i: "0 \<le> i" "3 * i + 2 < int (length (r m))"
    and tabs: "D1D \<le> int (length (gll1D m))" "D1D \<le> int (length (lagcoeff m))"
  shows "thn (if k \<le> 2
              then thn (rd (r m) (3*i + k)) (\<lambda>x.
                     lagrange_eval (w, k*D1D) x j D1D (gll1D m) (lagcoeff m))
              else Inr w) (\<lambda>wtr.
         if D1D = 2 \<and> k = 1
         then thn (rd (r m) (3*i + 2)) (\<lambda>x.
                lagrange_eval (wtr, 2*D1D) x j D1D (gll1D m) (lagcoeff m))
         else Inr wtr)
       = Inr (let w1 = (if k \<le> 2 then w[nat (k*D1D + j) := Some (weight m D1D i k j)] else w)
              in if D1D = 2 \<and> k = 1 then w1[nat (2*D1D + j) := Some (weight m D1D i 2 j)] else w1)"
proof -
  have le: "k \<le> 2 \<Longrightarrow> k * D1D + j < int (length w)"
  proof -
    assume "k \<le> 2"
    then have "k * D1D \<le> 2 * D1D" using D by (intro mult_right_mono) simp_all
    then show ?thesis using j len by linarith
  qed
  have ge: "0 \<le> k * D1D + j" using k D j by simp
  have first: "k \<le> 2 \<Longrightarrow> lagrange_eval (w, k*D1D) x j D1D (gll1D m) (lagcoeff m)
      = Inr (w[nat (k*D1D + j) := Some (basis_value (gll1D m) (lagcoeff m) D1D x j)])" for x
    using D j tabs le ge by (intro lagrange_eval_result) simp_all
  have second: "lagrange_eval (w', 2*D1D) x j D1D (gll1D m) (lagcoeff m)
      = Inr (w'[nat (2*D1D + j) := Some (basis_value (gll1D m) (lagcoeff m) D1D x j)])"
    if "length w' = length w" for x w'
    using D j tabs len that by (intro lagrange_eval_result) simp_all
  have rdk: "k \<le> 2 \<Longrightarrow> rd (r m) (3*i + k) = Inr (r m ! nat (3*i + k))"
    using i k by (simp add: rd_def)
  have rd2: "rd (r m) (3*i + 2) = Inr (r m ! nat (3*i + 2))"
    using i by (simp add: rd_def)
  define w1 where "w1 = (if k \<le> 2 then w[nat (k*D1D + j) := Some (weight m D1D i k j)] else w)"
  have A: "(if k \<le> 2
              then thn (rd (r m) (3*i + k)) (\<lambda>x.
                     lagrange_eval (w, k*D1D) x j D1D (gll1D m) (lagcoeff m))
              else Inr w) = Inr w1"
    by (cases "k \<le> 2") (simp_all add: first rdk weight_def w1_def)
  have lw1: "length w1 = length w" by (simp add: w1_def)
  have B: "thn (rd (r m) (3*i + 2)) (\<lambda>x.
                lagrange_eval (w1, 2*D1D) x j D1D (gll1D m) (lagcoeff m))
       = Inr (w1[nat (2*D1D + j) := Some (weight m D1D i 2 j)])"
    by (simp add: rd2 second [OF lw1] weight_def)
  show ?thesis
    unfolding A thn_Inr B Let_def w1_def [symmetric] by simp
qed

lemma basis_inner:
  assumes D: "2 \<le> D1D" "D1D \<le> 31" and j: "0 \<le> j" "j < D1D"
    and len: "3 * D1D \<le> int (length w)"
    and i: "0 \<le> i" "3 * i + 2 < int (length (r m))"
    and tabs: "D1D \<le> int (length (gll1D m))" "D1D \<le> int (length (lagcoeff m))"
    and old: "\<forall>d q. 0 \<le> d \<and> d < 3 \<and> 0 \<le> q \<and> q < j \<longrightarrow> w ! nat (d*D1D + q) = Some (weight m D1D i d q)"
  shows "\<exists>w'. MFEM_FOREACH_THREAD D1D (\<lambda>k wtr.
         thn (if k \<le> 2
              then thn (rd (r m) (3*i + k)) (\<lambda>x.
                     lagrange_eval (wtr, k*D1D) x j D1D (gll1D m) (lagcoeff m))
              else Inr wtr) (\<lambda>wtr.
         if D1D = 2 \<and> k = 1
         then thn (rd (r m) (3*i + 2)) (\<lambda>x.
                lagrange_eval (wtr, 2*D1D) x j D1D (gll1D m) (lagcoeff m))
         else Inr wtr)) w = Inr w'
       \<and> length w' = length w
       \<and> (\<forall>d q. 0 \<le> d \<and> d < 3 \<and> 0 \<le> q \<and> q < j + 1 \<longrightarrow> w' ! nat (d*D1D + q) = Some (weight m D1D i d q))"
    (is "\<exists>w'. MFEM_FOREACH_THREAD D1D ?body w = Inr w' \<and> _ \<and> _")
proof -
  let ?Q = "\<lambda>k a. length a = length w
      \<and> (\<forall>d q. 0 \<le> d \<and> d < 3 \<and> 0 \<le> q \<and> q < j \<longrightarrow> a ! nat (d*D1D + q) = Some (weight m D1D i d q))
      \<and> (\<forall>d. 0 \<le> d \<and> d < 3 \<and> (d < k \<or> (D1D = 2 \<and> k = 2)) \<longrightarrow> a ! nat (d*D1D + j) = Some (weight m D1D i d j))"
  have "\<exists>w'. for_loop D1D ?body w = Inr w' \<and> ?Q D1D w'"
  proof (rule for_loop_rule [where P = ?Q])
    show "0 \<le> D1D" using D by simp
    show "?Q 0 w" using old D by auto
  next
    fix k a
    assume k: "0 \<le> k" "k < D1D" and Q: "?Q k a"
    from Q len have lena: "3 * D1D \<le> int (length a)" by simp
    define b where "b \<longleftrightarrow> D1D = 2 \<and> k = 1"
    define a1 where "a1 = (if k \<le> 2 then a[nat (k*D1D + j) := Some (weight m D1D i k j)] else a)"
    define a2 where "a2 = (if b then a1[nat (2*D1D + j) := Some (weight m D1D i 2 j)] else a1)"
    have step: "?body k a = Inr a2"
      unfolding a1_def a2_def b_def
      by (rule basis_step [unfolded Let_def, OF D j k lena i tabs])
    have len12: "length a1 = length a" "length a2 = length a"
      by (simp_all add: a1_def a2_def)
    have in_range: "nat (d * D1D + q) < length a" if "0 \<le> d" "d < 3" "0 \<le> q" "q < D1D" for d q
    proof -
      from that have "d * D1D \<le> 2 * D1D" using D by (intro mult_right_mono) simp_all
      with that lena show ?thesis by linarith
    qed
    have nth1: "a1 ! nat (d*D1D + q)
        = (if k \<le> 2 \<and> k = d \<and> j = q then Some (weight m D1D i k j) else a ! nat (d*D1D + q))"
      if "0 \<le> d" "d < 3" "0 \<le> q" "q < D1D" for d q
    proof -
      have "k \<le> 2 \<Longrightarrow> nat (k * D1D + j) < length a"
        using in_range [of k j] k j by simp
      then have "a1 ! x = (if k \<le> 2 \<and> nat (k*D1D + j) = x then Some (weight m D1D i k j) else a ! x)" for x
        by (auto simp add: a1_def nth_list_update)
      from this [of "nat (d*D1D + q)"] show ?thesis
        by (simp only: nat_idx_eq_iff [OF k(1) that(1) j that(3,4)])
    qed
    have nth2: "a2 ! nat (d*D1D + q)
        = (if b \<and> 2 = d \<and> j = q then Some (weight m D1D i 2 j) else a1 ! nat (d*D1D + q))"
      if "0 \<le> d" "d < 3" "0 \<le> q" "q < D1D" for d q
    proof -
      have "nat (2 * D1D + j) < length a1"
        using in_range [of 2 j] j len12 by simp
      then have "a2 ! x = (if b \<and> nat (2*D1D + j) = x then Some (weight m D1D i 2 j) else a1 ! x)" for x
        by (auto simp add: a2_def nth_list_update)
      from this [of "nat (d*D1D + q)"] show ?thesis
        by (simp only: nat_idx_eq_iff [OF zero_le_numeral that(1) j that(3,4)])
    qed
    have bk: "b \<Longrightarrow> k = 1" by (simp add: b_def)
    have cov: "d < k \<or> (d = k \<and> k \<le> 2) \<or> (b \<and> d = 2)"
      if "0 \<le> d" "d < 3" "d < k + 1 \<or> (D1D = 2 \<and> k + 1 = 2)" for d
      using that k by (auto simp: b_def)
    have old_cols: "a2 ! nat (d*D1D + q) = Some (weight m D1D i d q)"
      if "0 \<le> d" "d < 3" "0 \<le> q" "q < j" for d q
    proof -
      from that j have q: "q < D1D" "j \<noteq> q" by simp_all
      have "a2 ! nat (d*D1D + q) = a ! nat (d*D1D + q)"
        using nth1 [OF that(1,2,3) q(1)] nth2 [OF that(1,2,3) q(1)] q(2) by simp
      with Q that show ?thesis by simp
    qed
    have new_col: "a2 ! nat (d*D1D + j) = Some (weight m D1D i d j)"
      if d: "0 \<le> d" "d < 3" and c: "d < k + 1 \<or> (D1D = 2 \<and> k + 1 = 2)" for d
    proof -
      note n1 = nth1 [OF d j] and n2 = nth2 [OF d j]
      from cov [OF d c] consider "d < k" | "d = k" "k \<le> 2" | "b" "d = 2" by blast
      then show ?thesis
      proof cases
        case 1
        then have "b \<Longrightarrow> d \<noteq> 2" using bk by auto
        with 1 have "a2 ! nat (d*D1D + j) = a ! nat (d*D1D + j)"
          using n1 n2 by auto
        with Q d 1 show ?thesis by simp
      next
        case 2
        then have "b \<Longrightarrow> d \<noteq> 2" using bk by auto
        with 2 show ?thesis using n1 n2 by auto
      next
        case 3
        then show ?thesis using n2 by simp
      qed
    qed
    have "?Q (k + 1) a2"
      using Q len12 old_cols new_col by simp
    with step show "\<exists>a'. ?body k a = Inr a' \<and> ?Q (k + 1) a'" by blast
  qed
  then obtain w' where w': "for_loop D1D ?body w = Inr w'" "?Q D1D w'" by blast
  have "\<forall>d q. 0 \<le> d \<and> d < 3 \<and> 0 \<le> q \<and> q < j + 1 \<longrightarrow> w' ! nat (d*D1D + q) = Some (weight m D1D i d q)"
  proof (intro allI impI)
    fix d q :: int
    assume a: "0 \<le> d \<and> d < 3 \<and> 0 \<le> q \<and> q < j + 1"
    show "w' ! nat (d*D1D + q) = Some (weight m D1D i d q)"
    proof (cases "q = j")
      case True
      have "d < D1D \<or> D1D = 2" using a D by auto
      with w'(2) a True show ?thesis by auto
    next
      case False
      with a have "q < j" by simp
      with w'(2) a show ?thesis by auto
    qed
  qed
  with w' show ?thesis by (auto simp: MFEM_FOREACH_THREAD_def)
qed

lemma basis_phase_result:
  assumes D: "2 \<le> D1D" "D1D \<le> 31"
    and len: "3 * D1D \<le> int (length w)"
    and i: "0 \<le> i" "3 * i + 2 < int (length (r m))"
    and tabs: "D1D \<le> int (length (gll1D m))" "D1D \<le> int (length (lagcoeff m))"
  shows "\<exists>w'. basis_phase i D1D m w = Inr w' \<and> length w' = length w
       \<and> (\<forall>d q. 0 \<le> d \<and> d < 3 \<and> 0 \<le> q \<and> q < D1D \<longrightarrow> w' ! nat (d*D1D + q) = Some (weight m D1D i d q))"
proof -
  let ?P = "\<lambda>j a. length a = length w
      \<and> (\<forall>d q. 0 \<le> d \<and> d < 3 \<and> 0 \<le> q \<and> q < j \<longrightarrow> a ! nat (d*D1D + q) = Some (weight m D1D i d q))"
  have "\<exists>w'. for_loop D1D (\<lambda>j.
       MFEM_FOREACH_THREAD D1D (\<lambda>k wtr.
         thn (if k \<le> 2
              then thn (rd (r m) (3*i + k)) (\<lambda>x.
                     lagrange_eval (wtr, k*D1D) x j D1D (gll1D m) (lagcoeff m))
              else Inr wtr) (\<lambda>wtr.
         if D1D = 2 \<and> k = 1
         then thn (rd (r m) (3*i + 2)) (\<lambda>x.
                lagrange_eval (wtr, 2*D1D) x j D1D (gll1D m) (lagcoeff m))
         else Inr wtr))) w = Inr w' \<and> ?P D1D w'"
  proof (rule for_loop_rule [where P = ?P])
    show "0 \<le> D1D" using D by simp
    show "?P 0 w" by auto
  next
    fix j a
    assume j: "0 \<le> j" "j < D1D" and P: "?P j a"
    from P len have lena: "3 * D1D \<le> int (length a)" by simp
    from P have old: "\<forall>d q. 0 \<le> d \<and> d < 3 \<and> 0 \<le> q \<and> q < j \<longrightarrow> a ! nat (d*D1D + q) = Some (weight m D1D i d q)"
      by simp
    from basis_inner [OF D j lena i tabs old] P
    show "\<exists>a'. MFEM_FOREACH_THREAD D1D (\<lambda>k wtr.
         thn (if k \<le> 2
              then thn (rd (r m) (3*i + k)) (\<lambda>x.
                     lagrange_eval (wtr, k*D1D) x j D1D (gll1D m) (lagcoeff m))
              else Inr wtr) (\<lambda>wtr.
         if D1D = 2 \<and> k = 1
         then thn (rd (r m) (3*i + 2)) (\<lambda>x.
                lagrange_eval (wtr, 2*D1D) x j D1D (gll1D m) (lagcoeff m))
         else Inr wtr)) a = Inr a' \<and> ?P (j + 1) a'"
      by auto
  qed
  then show ?thesis by (simp add: basis_phase_def MFEM_FOREACH_THREAD_def)
qed


subsection \<open>Contraction phase\<close>

lemma nat_idx_eq_iff':
  fixes d d' q q' D :: int
  assumes "0 \<le> d" "0 \<le> d'" "0 \<le> q" "q < D" "0 \<le> q'" "q' < D"
  shows "nat (q + d * D) = nat (q' + d' * D) \<longleftrightarrow> d = d' \<and> q = q'"
  using nat_idx_eq_iff [OF assms] by (simp add: add.commute)

lemma lane_idx_bound:
  fixes j k D :: int
  assumes "0 \<le> j" "j < D" "0 \<le> k" "k < D"
  shows "0 \<le> j + k*D" "j + k*D < D*D"
proof -
  have D: "0 \<le> D" using assms by simp
  then show "0 \<le> j + k*D" using assms by simp
  have "k * D \<le> (D - 1) * D" using assms D by (intro mult_right_mono) simp_all
  also have "(D - 1) * D = D * D - D"
    by (simp add: algebra_simps)
  finally show "j + k*D < D*D" using assms(2) by linarith
qed

lemma tensor_idx_bound:
  fixes j k l D :: int
  assumes "0 \<le> j" "j < D" "0 \<le> k" "k < D" "0 \<le> l" "l < D"
  shows "0 \<le> j + k*D + l*D*D" "j + k*D + l*D*D < D*D*D"
proof -
  have D: "0 \<le> D" using assms by simp
  have "0 \<le> l * D * D" using assms D by simp
  then show "0 \<le> j + k*D + l*D*D" using lane_idx_bound(1) [OF assms(1-4)] by simp
  have "l * D * D = l * (D * D)" by simp
  also have "\<dots> \<le> (D - 1) * (D * D)" using assms D by (intro mult_right_mono) simp_all
  also have "(D - 1) * (D * D) = D * D * D - D * D"
    by (simp add: algebra_simps)
  finally show "j + k*D + l*D*D < D*D*D" using lane_idx_bound(2) [OF assms(1-4)] by linarith
qed

lemma rd_sh_Some: "0 \<le> p \<Longrightarrow> p < int (length a) \<Longrightarrow> a ! nat p = Some v \<Longrightarrow> rd_sh a p = Inr v"
  by (simp add: rd_sh_def rd_def)

lemma wr_sh_ok: "0 \<le> p \<Longrightarrow> p < int (length a) \<Longrightarrow> wr_sh a p v = Inr (a[nat p := Some v])"
  by (simp add: wr_sh_def wr_def)

lemma rd_ok: "0 \<le> p \<Longrightarrow> p < int (length a) \<Longrightarrow> rd a p = Inr (a ! nat p)"
  by (simp add: rd_def)

lemma contract_l_loop:
  fixes w2 :: "int \<Rightarrow> real"
  assumes D: "0 \<le> D1D"
    and p: "0 \<le> p" "p < int (length s)"
    and gf: "0 \<le> elemOffset" "elemOffset + D1D*D1D*D1D \<le> int (length gf)"
    and jk: "0 \<le> j" "j < D1D" "0 \<le> k" "k < D1D"
    and wlen: "3 * D1D \<le> int (length wtr)"
    and w2: "\<forall>q. 0 \<le> q \<and> q < D1D \<longrightarrow> wtr ! nat (2*D1D + q) = Some (w2 q)"
  shows "for_loop D1D (\<lambda>l sb.
                thn (rd_sh sb p) (\<lambda>s.
                thn (rd gf (elemOffset + j + k*D1D + l*D1D*D1D)) (\<lambda>g.
                thn (rd_sh wtr (2*D1D + l)) (\<lambda>w.
                wr_sh sb p (s + g * w))))) (s[nat p := Some v0])
         = Inr (s[nat p := Some (v0 + (\<Sum>l \<in> {0..<D1D}. gf ! nat (elemOffset + j + k*D1D + l*D1D*D1D) * w2 l))])"
    (is "for_loop D1D ?body _ = _")
proof -
  let ?R = "\<lambda>n t. t = s[nat p := Some (v0 + (\<Sum>l \<in> {0..<n}. gf ! nat (elemOffset + j + k*D1D + l*D1D*D1D) * w2 l))]"
  have "\<exists>t. for_loop D1D ?body (s[nat p := Some v0]) = Inr t \<and> ?R D1D t"
  proof (rule for_loop_rule [where P = ?R])
    show "0 \<le> D1D" by fact
    show "?R 0 (s[nat p := Some v0])" by simp
  next
    fix l t
    assume l: "0 \<le> l" "l < D1D" and R: "?R l t"
    let ?x = "v0 + (\<Sum>l \<in> {0..<l}. gf ! nat (elemOffset + j + k*D1D + l*D1D*D1D) * w2 l)"
    from R p have t: "length t = length s" "t ! nat p = Some ?x" by simp_all
    have r1: "rd_sh t p = Inr ?x"
      using p t by (intro rd_sh_Some) simp_all
    have "0 \<le> elemOffset + j + k*D1D + l*D1D*D1D" "elemOffset + j + k*D1D + l*D1D*D1D < int (length gf)"
      using tensor_idx_bound [OF jk l] gf by simp_all
    then have r2: "rd gf (elemOffset + j + k*D1D + l*D1D*D1D) = Inr (gf ! nat (elemOffset + j + k*D1D + l*D1D*D1D))"
      by (rule rd_ok)
    have r3: "rd_sh wtr (2*D1D + l) = Inr (w2 l)"
      using l w2 wlen D by (intro rd_sh_Some) simp_all
    have r4: "wr_sh t p y = Inr (s[nat p := Some y])" for y
      using p t R by (simp add: wr_sh_ok)
    have set: "{0..<l + 1} = insert l {0..<l}" using l by auto
    have step: "?body l t = Inr (s[nat p := Some (?x + gf ! nat (elemOffset + j + k*D1D + l*D1D*D1D) * w2 l)])"
      by (simp add: r1 r2 r3 r4)
    have val: "?x + gf ! nat (elemOffset + j + k*D1D + l*D1D*D1D) * w2 l
        = v0 + (\<Sum>l \<in> {0..<l + 1}. gf ! nat (elemOffset + j + k*D1D + l*D1D*D1D) * w2 l)"
      by (simp add: set)
    show "\<exists>t'. ?body l t = Inr t' \<and> ?R (l + 1) t'"
      unfolding step val by simp
  qed
  then show ?thesis by simp
qed

lemma contract_lane:
  fixes w :: "int \<Rightarrow> int \<Rightarrow> real"
  assumes D: "0 \<le> D1D"
    and gf: "0 \<le> elemOffset" "elemOffset + D1D*D1D*D1D \<le> int (length gf)"
    and jk: "0 \<le> j" "j < D1D" "0 \<le> k" "k < D1D"
    and slen: "D1D * D1D \<le> int (length s)"
    and wlen: "3 * D1D \<le> int (length wtr)"
    and w: "\<forall>d q. 0 \<le> d \<and> d < 3 \<and> 0 \<le> q \<and> q < D1D \<longrightarrow> wtr ! nat (d*D1D + q) = Some (w d q)"
  shows "thn (wr_sh s (j + k*D1D) 0) (\<lambda>sb.
         thn (for_loop D1D (\<lambda>l sb.
                thn (rd_sh sb (j + k*D1D)) (\<lambda>s.
                thn (rd gf (elemOffset + j + k*D1D + l*D1D*D1D)) (\<lambda>g.
                thn (rd_sh wtr (2*D1D + l)) (\<lambda>w.
                wr_sh sb (j + k*D1D) (s + g * w))))) sb) (\<lambda>sb.
         thn (rd_sh sb (j + k*D1D)) (\<lambda>s.
         thn (rd_sh wtr (D1D + k)) (\<lambda>w1.
         thn (rd_sh wtr j) (\<lambda>w0.
         wr_sh sb (j + k*D1D) (s * (w1 * w0)))))))
       = Inr (s[nat (j + k*D1D) := Some (lane_sum gf elemOffset D1D w j k)])"
proof -
  have p: "0 \<le> j + k*D1D" "j + k*D1D < int (length s)"
    using lane_idx_bound [OF jk] slen by simp_all
  have w2: "\<forall>q. 0 \<le> q \<and> q < D1D \<longrightarrow> wtr ! nat (2*D1D + q) = Some (w 2 q)"
    using w by simp
  have w1: "wtr ! nat (D1D + k) = Some (w 1 k)"
    using w [rule_format, of 1 k] jk by simp
  have w0: "wtr ! nat j = Some (w 0 j)"
    using w [rule_format, of 0 j] jk by simp
  note loop = contract_l_loop [OF D p gf jk wlen w2, of 0]
  have r1: "rd_sh wtr (D1D + k) = Inr (w 1 k)"
    using w1 jk wlen by (intro rd_sh_Some) simp_all
  have r0: "rd_sh wtr j = Inr (w 0 j)"
    using w0 jk wlen by (intro rd_sh_Some) simp_all
  have rs: "rd_sh (s[nat (j + k*D1D) := Some y]) (j + k*D1D) = Inr y" for y
    using p by (intro rd_sh_Some) simp_all
  have ws: "wr_sh (s[nat (j + k*D1D) := Some y]) (j + k*D1D) y' = Inr (s[nat (j + k*D1D) := Some y'])" for y y'
    using p by (simp add: wr_sh_ok)
  show ?thesis
    using p by (simp add: wr_sh_ok loop rs r1 r0 ws lane_sum_def)
qed

lemma contract_phase_result:
  fixes w :: "int \<Rightarrow> int \<Rightarrow> real"
  assumes D: "0 \<le> D1D"
    and gf: "0 \<le> elemOffset" "elemOffset + D1D*D1D*D1D \<le> int (length gf)"
    and slen: "D1D * D1D \<le> int (length s)"
    and wlen: "3 * D1D \<le> int (length wtr)"
    and w: "\<forall>d q. 0 \<le> d \<and> d < 3 \<and> 0 \<le> q \<and> q < D1D \<longrightarrow> wtr ! nat (d*D1D + q) = Some (w d q)"
  shows "\<exists>s'. contract_phase D1D elemOffset gf wtr s = Inr s' \<and> length s' = length s
       \<and> (\<forall>j k. 0 \<le> j \<and> j < D1D \<and> 0 \<le> k \<and> k < D1D \<longrightarrow>
             s' ! nat (j + k*D1D) = Some (lane_sum gf elemOffset D1D w j k))"
proof -
  let ?V = "lane_sum gf elemOffset D1D w"
  let ?lane = "\<lambda>j k sb. thn (wr_sh sb (j + k*D1D) 0) (\<lambda>sb.
         thn (for_loop D1D (\<lambda>l sb.
                thn (rd_sh sb (j + k*D1D)) (\<lambda>s.
                thn (rd gf (elemOffset + j + k*D1D + l*D1D*D1D)) (\<lambda>g.
                thn (rd_sh wtr (2*D1D + l)) (\<lambda>w.
                wr_sh sb (j + k*D1D) (s + g * w))))) sb) (\<lambda>sb.
         thn (rd_sh sb (j + k*D1D)) (\<lambda>s.
         thn (rd_sh wtr (D1D + k)) (\<lambda>w1.
         thn (rd_sh wtr j) (\<lambda>w0.
         wr_sh sb (j + k*D1D) (s * (w1 * w0)))))))"
  let ?P = "\<lambda>j t. length t = length s
      \<and> (\<forall>j' k'. 0 \<le> j' \<and> j' < j \<and> 0 \<le> k' \<and> k' < D1D \<longrightarrow> t ! nat (j' + k'*D1D) = Some (?V j' k'))"
  have inner: "\<exists>t'. for_loop D1D (?lane j) t = Inr t' \<and> ?P (j + 1) t'"
    if j: "0 \<le> j" "j < D1D" and P: "?P j t" for j t
  proof -
    let ?Q = "\<lambda>k u. length u = length s
      \<and> (\<forall>j' k'. 0 \<le> j' \<and> j' < j \<and> 0 \<le> k' \<and> k' < D1D \<longrightarrow> u ! nat (j' + k'*D1D) = Some (?V j' k'))
      \<and> (\<forall>k'. 0 \<le> k' \<and> k' < k \<longrightarrow> u ! nat (j + k'*D1D) = Some (?V j k'))"
    have "\<exists>t'. for_loop D1D (?lane j) t = Inr t' \<and> ?Q D1D t'"
    proof (rule for_loop_rule [where P = ?Q])
      show "0 \<le> D1D" by fact
      show "?Q 0 t" using P by auto
    next
      fix k u
      assume k: "0 \<le> k" "k < D1D" and Q: "?Q k u"
      from Q slen have ulen: "D1D * D1D \<le> int (length u)" by simp
      note step = contract_lane [OF D gf j k ulen wlen w]
      have pk: "nat (j + k*D1D) < length u"
        using lane_idx_bound [OF j k] ulen by simp
      have nth: "u[nat (j + k*D1D) := y] ! nat (j' + k'*D1D)
          = (if k = k' \<and> j = j' then y else u ! nat (j' + k'*D1D))"
        if "0 \<le> j'" "j' < D1D" "0 \<le> k'" for j' k' y
        using pk by (simp only: nth_list_update nat_idx_eq_iff' [OF k(1) that(3) j that(1,2)])
      have "?Q (k + 1) (u[nat (j + k*D1D) := Some (?V j k)])"
      proof (intro conjI allI impI)
        show "length (u[nat (j + k*D1D) := Some (?V j k)]) = length s" using Q by simp
      next
        fix j' k' :: int
        assume a: "0 \<le> j' \<and> j' < j \<and> 0 \<le> k' \<and> k' < D1D"
        with j have "j' < D1D" "j \<noteq> j'" by simp_all
        with a Q show "u[nat (j + k*D1D) := Some (?V j k)] ! nat (j' + k'*D1D) = Some (?V j' k')"
          by (simp add: nth)
      next
        fix k' :: int
        assume a: "0 \<le> k' \<and> k' < k + 1"
        show "u[nat (j + k*D1D) := Some (?V j k)] ! nat (j + k'*D1D) = Some (?V j k')"
        proof (cases "k' = k")
          case True
          then show ?thesis using pk by simp
        next
          case False
          with a have "k' < k" by simp
          with a Q False j show ?thesis by (simp add: nth)
        qed
      qed
      with step show "\<exists>u'. ?lane j k u = Inr u' \<and> ?Q (k + 1) u'" by blast
    qed
    then obtain t' where t': "for_loop D1D (?lane j) t = Inr t'" "?Q D1D t'" by blast
    have "?P (j + 1) t'"
    proof (intro conjI allI impI)
      show "length t' = length s" using t' by simp
    next
      fix j' k' :: int
      assume a: "0 \<le> j' \<and> j' < j + 1 \<and> 0 \<le> k' \<and> k' < D1D"
      show "t' ! nat (j' + k'*D1D) = Some (?V j' k')"
      proof (cases "j' = j")
        case True
        with a t'(2) show ?thesis by simp
      next
        case False
        with a have "j' < j" by simp
        with a t'(2) show ?thesis by simp
      qed
    qed
    with t' show ?thesis by blast
  qed
  have "\<exists>s'. for_loop D1D (\<lambda>j. MFEM_FOREACH_THREAD D1D (?lane j)) s = Inr s' \<and> ?P D1D s'"
  proof (rule for_loop_rule [where P = ?P])
    show "0 \<le> D1D" by fact
    show "?P 0 s" by auto
  next
    fix j t
    assume "0 \<le> j" "j < D1D" "?P j t"
    then show "\<exists>t'. MFEM_FOREACH_THREAD D1D (?lane j) t = Inr t' \<and> ?P (j + 1) t'"
      unfolding MFEM_FOREACH_THREAD_def by (rule inner)
  qed
  then show ?thesis
    by (simp add: contract_phase_def MFEM_FOREACH_THREAD_def)
qed


subsection \<open>Reduction phase\<close>

lemma for_loop_first:
  assumes n: "1 \<le> n" and first: "body 0 s = Inr s'"
    and rest: "\<And>i. 1 \<le> i \<Longrightarrow> i < n \<Longrightarrow> body i s' = Inr s'"
  shows "for_loop n body s = Inr s'"
proof -
  have "\<exists>t. for_loop n body s = Inr t \<and> t = (if n = 0 then s else s')"
  proof (rule for_loop_rule [where P = "\<lambda>k t. t = (if k = 0 then s else s')"])
    show "0 \<le> n" using n by simp
    show "s = (if (0::int) = 0 then s else s')" by simp
  next
    fix i t
    assume "0 \<le> i" "i < n" "t = (if i = 0 then s else s')"
    then show "\<exists>t'. body i t = Inr t' \<and> t' = (if i + 1 = 0 then s else s')"
      using first rest [of i] by (cases "i = 0") auto
  qed
  with n show ?thesis by auto
qed

lemma sumv_loop:
  fixes f :: "int \<Rightarrow> real"
  assumes n: "0 \<le> n" "n \<le> int (length s)"
    and vals: "\<forall>jj. 0 \<le> jj \<and> jj < n \<longrightarrow> s ! nat jj = Some (f jj)"
  shows "for_loop n (\<lambda>jj sumv. thn (rd_sh s jj) (\<lambda>v. Inr (sumv + v))) 0 = Inr (\<Sum>jj \<in> {0..<n}. f jj)"
    (is "for_loop n ?body 0 = _")
proof -
  have "\<exists>t. for_loop n ?body 0 = Inr t \<and> t = (\<Sum>jj \<in> {0..<n}. f jj)"
  proof (rule for_loop_rule [where P = "\<lambda>k t. t = (\<Sum>jj \<in> {0..<k}. f jj)"])
    show "0 \<le> n" by fact
    show "(0::real) = (\<Sum>jj \<in> {0..<0}. f jj)" by simp
  next
    fix k t
    assume k: "0 \<le> k" "k < n" and t: "t = (\<Sum>jj \<in> {0..<k}. f jj)"
    have "rd_sh s k = Inr (f k)"
      using k n vals by (intro rd_sh_Some) simp_all
    moreover have "{0..<k + 1} = insert k {0..<k}" using k by auto
    ultimately show "\<exists>t'. ?body k t = Inr t' \<and> t' = (\<Sum>jj \<in> {0..<k + 1}. f jj)"
      using t by simp
  qed
  then show ?thesis by simp
qed

lemma reduce_phase_result:
  fixes f :: "int \<Rightarrow> real"
  assumes D: "1 \<le> D1D" and slen: "D1D * D1D \<le> int (length s)"
    and vals: "\<forall>jj. 0 \<le> jj \<and> jj < D1D * D1D \<longrightarrow> s ! nat jj = Some (f jj)"
    and out: "0 \<le> i + fld * npt" "i + fld * npt < int (length (int_out m))"
  shows "reduce_phase D1D i fld npt s m
         = Inr (m\<lparr>int_out := (int_out m)[nat (i + fld * npt) := (\<Sum>jj \<in> {0..<D1D * D1D}. f jj)]\<rparr>)"
proof -
  let ?m' = "m\<lparr>int_out := (int_out m)[nat (i + fld * npt) := (\<Sum>jj \<in> {0..<D1D * D1D}. f jj)]\<rparr>"
  let ?lane = "\<lambda>(j::int) (k::int) m.
         if j = 0 \<and> k = 0
         then thn (for_loop (D1D*D1D) (\<lambda>jj sumv.
                     thn (rd_sh s jj) (\<lambda>s. Inr (sumv + s))) 0) (\<lambda>sumv.
              thn (wr (int_out m) (i + fld * npt) sumv) (\<lambda>out.
              Inr (m\<lparr>int_out := out\<rparr>)))
         else Inr m"
  have "0 \<le> D1D * D1D" using D by simp
  from sumv_loop [OF this slen vals]
  have lane00: "?lane 0 0 m = Inr ?m'"
    using out by (simp add: wr_def)
  have row0: "for_loop D1D (?lane 0) m = Inr ?m'"
    using D lane00 by (intro for_loop_first) simp_all
  have rows: "for_loop D1D (?lane j) ?m' = Inr ?m'" if "1 \<le> j" for j
  proof -
    have "\<exists>t. for_loop D1D (?lane j) ?m' = Inr t \<and> t = ?m'"
      using D that by (intro for_loop_rule [where P = "\<lambda>k t. t = ?m'"]) auto
    then show ?thesis by simp
  qed
  have "for_loop D1D (\<lambda>j. for_loop D1D (?lane j)) m = Inr ?m'"
  proof (rule for_loop_first)
    show "1 \<le> D1D" by fact
    show "for_loop D1D (?lane 0) m = Inr ?m'" by (rule row0)
    show "for_loop D1D (?lane j) ?m' = Inr ?m'" if "1 \<le> j" "j < D1D" for j
      using that(1) by (rule rows)
  qed
  then show ?thesis
    by (simp add: reduce_phase_def MFEM_FOREACH_THREAD_def)
qed

lemma sum_rows:
  fixes g :: "int \<Rightarrow> int \<Rightarrow> real"
  assumes D: "0 < D" and K: "0 \<le> K"
  shows "(\<Sum>jj \<in> {0..<K * D}. g (jj mod D) (jj div D)) = (\<Sum>k \<in> {0..<K}. \<Sum>j \<in> {0..<D}. g j k)"
  using K
proof (induction K rule: int_ge_induct)
  case base
  then show ?case by simp
next
  case (step K)
  have "0 \<le> K * D" using step.hyps D by simp
  then have split: "{0..<(K + 1) * D} = {0..<K * D} \<union> {K * D..<K * D + D}"
    using D by (auto simp: algebra_simps)
  have disj: "{0..<K * D} \<inter> {K * D..<K * D + D} = {}" by auto
  have row: "(\<Sum>jj \<in> {K * D..<K * D + D}. g (jj mod D) (jj div D)) = (\<Sum>j \<in> {0..<D}. g j K)"
  proof (rule sum.reindex_bij_witness [where i = "\<lambda>j. j + K * D" and j = "\<lambda>jj. jj - K * D"])
    fix a assume "a \<in> {K * D..<K * D + D}"
    then show "a - K * D + K * D = a" "a - K * D \<in> {0..<D}" by auto
    from \<open>a \<in> _\<close> have b: "0 \<le> a - K * D" "a - K * D < D" by auto
    have "a = (a - K * D) + K * D" by simp
    then have "a mod D = (a - K * D) mod D" "a div D = (a - K * D) div D + K"
      using D by (metis mod_mult_self1, metis div_mult_self1 less_irrefl add.commute)
    then show "g (a - K * D) K = g (a mod D) (a div D)"
      using b by (simp add: div_pos_pos_trivial)
  next
    fix b assume "b \<in> {0..<D}"
    then show "b + K * D - K * D = b" "b + K * D \<in> {K * D..<K * D + D}" by auto
  qed
  have set: "{0..<K + 1} = insert K {0..<K}" using step.hyps by auto
  show ?case
    unfolding split using disj step.IH row
    by (simp add: sum.union_disjoint set)
qed

lemma flat_sum:
  fixes g :: "int \<Rightarrow> int \<Rightarrow> real"
  assumes "0 < D"
  shows "(\<Sum>jj \<in> {0..<D * D}. g (jj mod D) (jj div D)) = (\<Sum>j \<in> {0..<D}. \<Sum>k \<in> {0..<D}. g j k)"
proof -
  have "(\<Sum>jj \<in> {0..<D * D}. g (jj mod D) (jj div D)) = (\<Sum>k \<in> {0..<D}. \<Sum>j \<in> {0..<D}. g j k)"
    using assms by (intro sum_rows) simp_all
  also have "\<dots> = (\<Sum>j \<in> {0..<D}. \<Sum>k \<in> {0..<D}. g j k)"
    by (rule sum.swap)
  finally show ?thesis .
qed

lemma flat_index:
  fixes jj D :: int
  assumes "0 < D" "0 \<le> jj" "jj < D * D"
  shows "0 \<le> jj mod D" "jj mod D < D" "0 \<le> jj div D" "jj div D < D" "jj mod D + jj div D * D = jj"
proof -
  show "0 \<le> jj mod D" "jj mod D < D" using assms by simp_all
  show "0 \<le> jj div D" using assms by (simp add: pos_imp_zdiv_nonneg_iff)
  show e: "jj mod D + jj div D * D = jj" by simp
  show "jj div D < D"
  proof (rule ccontr)
    assume "\<not> jj div D < D"
    then have "D * D \<le> jj div D * D" using assms by (intro mult_right_mono) simp_all
    also have "\<dots> \<le> jj" using e \<open>0 \<le> jj mod D\<close> by linarith
    finally show False using assms by simp
  qed
qed


section \<open>The kernel computes the interpolant\<close>

lemma factorized_eq_interpolant:
  assumes "0 < D1D"
  shows "factorized m D1D ncomp i fld = interpolant m D1D ncomp i fld"
proof -
  have "factorized m D1D ncomp i fld
      = (\<Sum>j \<in> {0..<D1D}. \<Sum>k \<in> {0..<D1D}.
          lane_sum (gf_in m) (el m ! nat i * (D1D*D1D*D1D) * ncomp + fld * (D1D*D1D*D1D)) D1D
            (weight m D1D i) j k)"
    unfolding factorized_def using assms by (rule flat_sum)
  also have "\<dots> = interpolant m D1D ncomp i fld"
    unfolding interpolant_def lane_sum_def
    by (simp add: sum_distrib_left sum_distrib_right power3_eq_cube power2_eq_square mult_ac)
  finally show ?thesis .
qed

lemma weight_int_out [simp]: "weight (m\<lparr>int_out := out\<rparr>) = weight m"
  by (simp add: weight_def fun_eq_iff)

lemma factorized_int_out [simp]: "factorized (m\<lparr>int_out := out\<rparr>) = factorized m"
  by (simp add: factorized_def fun_eq_iff)

lemma elem_offset_bound:
  fixes e ncomp fld P :: int
  assumes "0 \<le> e" "0 \<le> fld" "fld < ncomp" "0 \<le> P" "(e + 1) * ncomp * P \<le> L"
  shows "0 \<le> e * P * ncomp + fld * P" "e * P * ncomp + fld * P + P \<le> L"
proof -
  show "0 \<le> e * P * ncomp + fld * P" using assms by simp
  have "e * P * ncomp + fld * P + P = (e * ncomp + (fld + 1)) * P"
    by (simp add: algebra_simps)
  also have "\<dots> \<le> (e * ncomp + ncomp) * P"
    using assms by (intro mult_right_mono) simp_all
  also have "\<dots> = (e + 1) * ncomp * P" by (simp add: algebra_simps)
  finally show "e * P * ncomp + fld * P + P \<le> L" using assms by simp
qed

lemma out_idx_bound:
  fixes i fld npt ncomp :: int
  assumes "0 \<le> i" "i < npt" "0 \<le> fld" "fld < ncomp"
  shows "0 \<le> i + fld * npt" "i + fld * npt < npt * ncomp"
proof -
  show "0 \<le> i + fld * npt" using assms by simp
  have "fld * npt \<le> (ncomp - 1) * npt" using assms by (intro mult_right_mono) simp_all
  also have "\<dots> = npt * ncomp - npt" by (simp add: algebra_simps)
  finally show "i + fld * npt < npt * ncomp" using assms by linarith
qed

lemma kernel_body_result:
  assumes D: "2 \<le> D1D" "D1D \<le> MD1" "D1D \<le> 31"
    and i: "0 \<le> i" "i < npt"
    and rlen: "3 * i + 2 < int (length (r m))"
    and ellen: "i < int (length (el m))" and e: "0 \<le> el m ! nat i"
    and gf: "0 < ncomp \<Longrightarrow> (el m ! nat i + 1) * ncomp * (D1D*D1D*D1D) \<le> int (length (gf_in m))"
    and out: "npt * ncomp \<le> int (length (int_out m))"
    and tabs: "D1D \<le> int (length (gll1D m))" "D1D \<le> int (length (lagcoeff m))"
  shows "\<exists>out'. kernel_body MD1 D1D ncomp npt (D1D*D1D*D1D) i m = Inr (m\<lparr>int_out := out'\<rparr>)
       \<and> length out' = length (int_out m)
       \<and> (\<forall>fld. 0 \<le> fld \<and> fld < ncomp \<longrightarrow> out' ! nat (i + fld * npt) = factorized m D1D ncomp i fld)
       \<and> (\<forall>x. (\<forall>fld. 0 \<le> fld \<and> fld < ncomp \<longrightarrow> x \<noteq> nat (i + fld * npt)) \<longrightarrow> out' ! x = int_out m ! x)"
proof -
  let ?P = "D1D*D1D*D1D"
  let ?wtr0 = "replicate (nat (3*MD1)) (None :: real option)"
  let ?sums0 = "replicate (nat (MD1*MD1)) (None :: real option)"
  have D0: "0 \<le> D1D" "1 \<le> D1D" "0 < D1D" using D by simp_all
  have wlen0: "3 * D1D \<le> int (length ?wtr0)" using D by simp
  have "D1D * D1D \<le> MD1 * MD1" using D by (intro mult_mono) simp_all
  then have slen0: "D1D * D1D \<le> int (length ?sums0)" by simp
  from basis_phase_result [OF D(1,3) wlen0 i(1) rlen tabs]
  obtain wtr where wtr: "basis_phase i D1D m ?wtr0 = Inr wtr" "length wtr = length ?wtr0"
    and w: "\<forall>d q. 0 \<le> d \<and> d < 3 \<and> 0 \<le> q \<and> q < D1D \<longrightarrow> wtr ! nat (d*D1D + q) = Some (weight m D1D i d q)"
    by blast
  from wtr wlen0 have wlen: "3 * D1D \<le> int (length wtr)" by simp
  let ?body = "\<lambda>fld (sb, m).
             thn (rd (el m) i) (\<lambda>e.
             let elemOffset = e * ?P * ncomp + fld * ?P in
             thn (contract_phase D1D elemOffset (gf_in m) wtr sb) (\<lambda>sb.
             thn (reduce_phase D1D i fld npt sb m) (\<lambda>m.
             Inr (sb, m))))"
  let ?J = "\<lambda>f (t :: real option list \<times> memory). length (fst t) = length ?sums0 \<and> (\<exists>out'. snd t = m\<lparr>int_out := out'\<rparr>
       \<and> length out' = length (int_out m)
       \<and> (\<forall>fld. 0 \<le> fld \<and> fld < f \<longrightarrow> out' ! nat (i + fld * npt) = factorized m D1D ncomp i fld)
       \<and> (\<forall>x. (\<forall>fld. 0 \<le> fld \<and> fld < f \<longrightarrow> x \<noteq> nat (i + fld * npt)) \<longrightarrow> out' ! x = int_out m ! x))"
  have loop: "\<exists>t. for_loop ncomp ?body (?sums0, m) = Inr t \<and> ?J (max 0 ncomp) t"
  proof (cases "0 \<le> ncomp")
    case False
    then have "for_loop ncomp ?body (?sums0, m) = Inr (?sums0, m)" by simp
    moreover have "?J 0 (?sums0, m)"
      by (auto intro!: exI [of _ "int_out m"])
    ultimately show ?thesis using False by (simp add: max_def)
  next
    case True
    have "\<exists>t. for_loop ncomp ?body (?sums0, m) = Inr t \<and> ?J ncomp t"
    proof (rule for_loop_rule [where P = ?J])
      show "0 \<le> ncomp" by fact
      show "?J 0 (?sums0, m)"
        by (auto intro!: exI [of _ "int_out m"])
    next
      fix f and t :: "real option list \<times> memory"
      assume f: "0 \<le> f" "f < ncomp" and J: "?J f t"
      obtain sb m1 where t: "t = (sb, m1)" by (cases t)
      from J t obtain out1 where m1: "m1 = m\<lparr>int_out := out1\<rparr>"
        and len1: "length out1 = length (int_out m)" "length sb = length ?sums0"
        and done1: "\<forall>fld. 0 \<le> fld \<and> fld < f \<longrightarrow> out1 ! nat (i + fld * npt) = factorized m D1D ncomp i fld"
        and rest1: "\<forall>x. (\<forall>fld. 0 \<le> fld \<and> fld < f \<longrightarrow> x \<noteq> nat (i + fld * npt)) \<longrightarrow> out1 ! x = int_out m ! x"
        by auto
      let ?off = "el m ! nat i * ?P * ncomp + f * ?P"
      have P0: "0 \<le> ?P" using D0 by simp
      from f have "0 < ncomp" by simp
      note off = elem_offset_bound [OF e f P0 gf [OF this]]
      have rd_el: "rd (el m) i = Inr (el m ! nat i)"
        using i ellen by (simp add: rd_ok)
      have slen: "D1D * D1D \<le> int (length sb)" using slen0 len1 by simp
      from contract_phase_result [where w = "weight m D1D i", OF D0(1) off slen wlen w]
      obtain sb' where sb': "contract_phase D1D ?off (gf_in m) wtr sb = Inr sb'" "length sb' = length sb"
        and lanes: "\<forall>j k. 0 \<le> j \<and> j < D1D \<and> 0 \<le> k \<and> k < D1D \<longrightarrow>
             sb' ! nat (j + k*D1D) = Some (lane_sum (gf_in m) ?off D1D (weight m D1D i) j k)"
        by blast
      let ?f = "\<lambda>jj. lane_sum (gf_in m) ?off D1D (weight m D1D i) (jj mod D1D) (jj div D1D)"
      have vals: "\<forall>jj. 0 \<le> jj \<and> jj < D1D * D1D \<longrightarrow> sb' ! nat jj = Some (?f jj)"
      proof (intro allI impI)
        fix jj assume "0 \<le> jj \<and> jj < D1D * D1D"
        then have jj: "0 \<le> jj" "jj < D1D * D1D" by simp_all
        note fi = flat_index [OF D0(3) jj]
        from lanes fi(1-4) have "sb' ! nat (jj mod D1D + jj div D1D * D1D) = Some (?f jj)" by blast
        then show "sb' ! nat jj = Some (?f jj)" unfolding fi(5) .
      qed
      have slen': "D1D * D1D \<le> int (length sb')" using slen sb' by simp
      have oi: "0 \<le> i + f * npt" "i + f * npt < int (length (int_out m1))"
        using out_idx_bound [OF i f] out m1 len1 by simp_all
      let ?out2 = "out1[nat (i + f * npt) := factorized m D1D ncomp i f]"
      have red: "reduce_phase D1D i f npt sb' (m\<lparr>int_out := out1\<rparr>) = Inr (m\<lparr>int_out := ?out2\<rparr>)"
        using reduce_phase_result [OF D0(2) slen' vals oi] by (simp add: m1 factorized_def)
      have step: "?body f t = Inr (sb', m\<lparr>int_out := ?out2\<rparr>)"
        unfolding t by (simp add: rd_el m1 sb' red)
      have pidx: "nat (i + f * npt) < length out1" using oi m1 by simp
      have "?J (f + 1) (sb', m\<lparr>int_out := ?out2\<rparr>)"
      proof -
        have a: "length ?out2 = length (int_out m)" using len1 by simp
        have b: "?out2 ! nat (i + fld * npt) = factorized m D1D ncomp i fld"
          if "0 \<le> fld" "fld < f + 1" for fld
        proof (cases "fld = f")
          case True
          then show ?thesis using pidx by simp
        next
          case False
          with that have lt: "fld < f" by simp
          have "nat (i + f * npt) \<noteq> nat (i + fld * npt)"
            using nat_idx_eq_iff' [OF f(1) that(1) i i] False by simp
          then show ?thesis using done1 that(1) lt by simp
        qed
        have c: "?out2 ! x = int_out m ! x"
          if "\<forall>fld. 0 \<le> fld \<and> fld < f + 1 \<longrightarrow> x \<noteq> nat (i + fld * npt)" for x
        proof -
          from that f have "x \<noteq> nat (i + f * npt)" by simp
          moreover from that have "\<forall>fld. 0 \<le> fld \<and> fld < f \<longrightarrow> x \<noteq> nat (i + fld * npt)" by simp
          ultimately show ?thesis using rest1 by simp
        qed
        show ?thesis using a b c sb' len1 by auto
      qed
      with step show "\<exists>t'. ?body f t = Inr t' \<and> ?J (f + 1) t'" by blast
    qed
    with True show ?thesis by (simp add: max_def)
  qed
  then obtain tf where tf: "for_loop ncomp ?body (?sums0, m) = Inr tf" "?J (max 0 ncomp) tf"
    by blast
  obtain sbf mf where tfp: "tf = (sbf, mf)" by (cases tf)
  have range: "(0 \<le> fld \<and> fld < max 0 ncomp) = (0 \<le> fld \<and> fld < ncomp)" for fld
    by auto
  from tf(2) obtain out' where out': "mf = m\<lparr>int_out := out'\<rparr>" "length out' = length (int_out m)"
    "\<forall>fld. 0 \<le> fld \<and> fld < ncomp \<longrightarrow> out' ! nat (i + fld * npt) = factorized m D1D ncomp i fld"
    "\<forall>x. (\<forall>fld. 0 \<le> fld \<and> fld < ncomp \<longrightarrow> x \<noteq> nat (i + fld * npt)) \<longrightarrow> out' ! x = int_out m ! x"
    unfolding tfp range snd_conv by blast
  have "kernel_body MD1 D1D ncomp npt ?P i m = Inr (m\<lparr>int_out := out'\<rparr>)"
    using tf(1) by (simp add: kernel_body_def wtr tfp out'(1))
  with out'(2-4) show ?thesis by blast
qed


lemma kernel_loop_result:
  assumes v: "valid_invocation m npt ncomp nel D1D" and MD1: "D1D \<le> MD1"
  shows "\<exists>out'. for_loop npt (kernel_body MD1 D1D ncomp npt (D1D*D1D*D1D)) m = Inr (m\<lparr>int_out := out'\<rparr>)
       \<and> length out' = length (int_out m)
       \<and> (\<forall>i fld. 0 \<le> i \<and> i < npt \<and> 0 \<le> fld \<and> fld < ncomp \<longrightarrow>
             out' ! nat (i + fld * npt) = factorized m D1D ncomp i fld)"
proof (cases "0 \<le> npt")
  case False
  then have "for_loop npt (kernel_body MD1 D1D ncomp npt (D1D*D1D*D1D)) m = Inr (m\<lparr>int_out := int_out m\<rparr>)"
    by simp
  with False show ?thesis by (intro exI [of _ "int_out m"]) auto
next
  case True
  from v have D: "2 \<le> D1D" "D1D \<le> 10"
    and lens: "npt \<le> int (length (el m))" "3 * npt \<le> int (length (r m))"
      "npt * ncomp \<le> int (length (int_out m))" "nel * ncomp * D1D^3 \<le> int (length (gf_in m))"
    and tabs: "D1D \<le> int (length (gll1D m))" "D1D \<le> int (length (lagcoeff m))"
    and els: "\<forall>e \<in> set (take (nat npt) (el m)). 0 \<le> e \<and> e < nel"
    by (simp_all add: valid_invocation_def)
  have D31: "D1D \<le> 31" using D by simp
  let ?I = "\<lambda>n m'. \<exists>out'. m' = m\<lparr>int_out := out'\<rparr> \<and> length out' = length (int_out m)
       \<and> (\<forall>i fld. 0 \<le> i \<and> i < n \<and> 0 \<le> fld \<and> fld < ncomp \<longrightarrow>
             out' ! nat (i + fld * npt) = factorized m D1D ncomp i fld)"
  have "\<exists>m'. for_loop npt (kernel_body MD1 D1D ncomp npt (D1D*D1D*D1D)) m = Inr m' \<and> ?I npt m'"
  proof (rule for_loop_rule [where P = ?I])
    show "0 \<le> npt" by fact
    show "?I 0 m" by (intro exI [of _ "int_out m"]) auto
  next
    fix n m1
    assume n: "0 \<le> n" "n < npt" and I: "?I n m1"
    then obtain out1 where m1: "m1 = m\<lparr>int_out := out1\<rparr>" and len1: "length out1 = length (int_out m)"
      and done1: "\<forall>i fld. 0 \<le> i \<and> i < n \<and> 0 \<le> fld \<and> fld < ncomp \<longrightarrow>
             out1 ! nat (i + fld * npt) = factorized m D1D ncomp i fld"
      by blast
    have rlen: "3 * n + 2 < int (length (r m1))" using n lens m1 by simp
    have ellen: "n < int (length (el m1))" using n lens m1 by simp
    have "nat n < length (take (nat npt) (el m))" using n lens by simp
    then have "take (nat npt) (el m) ! nat n \<in> set (take (nat npt) (el m))" by (rule nth_mem)
    moreover have "take (nat npt) (el m) ! nat n = el m ! nat n" using n by simp
    ultimately have e: "0 \<le> el m ! nat n" "el m ! nat n < nel" using els by auto
    have e1: "0 \<le> el m1 ! nat n" using e m1 by simp
    have gf: "(el m1 ! nat n + 1) * ncomp * (D1D*D1D*D1D) \<le> int (length (gf_in m1))" if "0 < ncomp"
    proof -
      have "0 \<le> ncomp * (D1D*D1D*D1D)" using that D by simp
      then have "(el m ! nat n + 1) * (ncomp * (D1D*D1D*D1D)) \<le> nel * (ncomp * (D1D*D1D*D1D))"
        using e by (intro mult_right_mono) simp_all
      also have "\<dots> = nel * ncomp * D1D^3" by (simp add: power3_eq_cube)
      finally show ?thesis using lens m1 by (simp add: mult.assoc)
    qed
    have out: "npt * ncomp \<le> int (length (int_out m1))" using lens len1 m1 by simp
    have tabs1: "D1D \<le> int (length (gll1D m1))" "D1D \<le> int (length (lagcoeff m1))"
      using tabs m1 by simp_all
    from kernel_body_result [OF D(1) MD1 D31 n rlen ellen e1 gf out tabs1]
    obtain out2 where body: "kernel_body MD1 D1D ncomp npt (D1D*D1D*D1D) n m1 = Inr (m1\<lparr>int_out := out2\<rparr>)"
      and len2: "length out2 = length (int_out m1)"
      and new2: "\<forall>fld. 0 \<le> fld \<and> fld < ncomp \<longrightarrow> out2 ! nat (n + fld * npt) = factorized m1 D1D ncomp n fld"
      and rest2: "\<forall>x. (\<forall>fld. 0 \<le> fld \<and> fld < ncomp \<longrightarrow> x \<noteq> nat (n + fld * npt)) \<longrightarrow> out2 ! x = int_out m1 ! x"
      by blast
    have val: "out2 ! nat (i + fld * npt) = factorized m D1D ncomp i fld"
      if "0 \<le> i" "i < n + 1" "0 \<le> fld" "fld < ncomp" for i fld
    proof (cases "i = n")
      case True
      with new2 that m1 show ?thesis by simp
    next
      case False
      with that have lt: "i < n" "i < npt" using n by simp_all
      have "nat (i + fld * npt) \<noteq> nat (n + fld' * npt)" if "0 \<le> fld'" for fld'
        using nat_idx_eq_iff' [OF \<open>0 \<le> fld\<close> that \<open>0 \<le> i\<close> lt(2) n] False by simp
      then have "out2 ! nat (i + fld * npt) = int_out m1 ! nat (i + fld * npt)"
        using rest2 by simp
      with done1 that lt m1 show ?thesis by simp
    qed
    have "?I (n + 1) (m1\<lparr>int_out := out2\<rparr>)"
      using val len2 len1 m1 by (intro exI [of _ out2]) simp
    with body show "\<exists>m'. kernel_body MD1 D1D ncomp npt (D1D*D1D*D1D) n m1 = Inr m' \<and> ?I (n + 1) m'"
      by blast
  qed
  then show ?thesis by blast
qed

lemma kernel_result:
  assumes v: "valid_invocation m npt ncomp nel D1D"
    and path: "T_D1D = D1D \<or> (T_D1D = 0 \<and> pN = D1D)"
  shows "\<exists>out'. InterpolateLocal3DKernel T_D1D m npt ncomp nel gf_offset pN = Inr (m\<lparr>int_out := out'\<rparr>)
       \<and> length out' = length (int_out m)
       \<and> (\<forall>i fld. 0 \<le> i \<and> i < npt \<and> 0 \<le> fld \<and> fld < ncomp \<longrightarrow>
             out' ! nat (i + fld * npt) = factorized m D1D ncomp i fld)"
proof -
  from v have D: "2 \<le> D1D" "D1D \<le> 10" by (simp_all add: valid_invocation_def)
  define MD1 where "MD1 = (if T_D1D \<noteq> 0 then T_D1D else 10)"
  have deg: "(if T_D1D \<noteq> 0 then T_D1D else pN) = D1D" using path D by auto
  have md: "MD1 \<le> 10" "D1D \<le> MD1" using path D by (auto simp: MD1_def)
  have "InterpolateLocal3DKernel T_D1D m npt ncomp nel gf_offset pN
      = for_loop npt (kernel_body MD1 D1D ncomp npt (D1D*D1D*D1D)) m"
    using md D unfolding InterpolateLocal3DKernel_def Let_def deg MD1_def [symmetric]
    by (simp add: MFEM_VERIFY_def forall_2D_def)
  with kernel_loop_result [OF v md(2)] show ?thesis by simp
qed



text \<open>
  The lower bound on the degree is needed: with \<open>D1D = 1\<close> the only lane is \<open>(0, 0)\<close>, the
  basis phase stores the weight of the first direction alone, and the contraction reads
  \<^verbatim>\<open>wtr[2*D1D + l]\<close> and \<^verbatim>\<open>wtr[D1D + k]\<close> before anything was written there.
\<close>

lemma degree_1_reads_unwritten_weights:
  "InterpolateLocal3DKernel 0
     \<lparr>gf_in = [1], el = [0], r = [0, 0, 0], int_out = [0], gll1D = [0], lagcoeff = [1]\<rparr>
     1 1 1 1 1
   = Inl Undefined_behaviour"
  by (simp add: kernel_eval)

section \<open>Only the output buffer is written\<close>

lemma forM_preserves:
  assumes "forM xs body s = Inr s'" and "Q s"
    and "\<And>i t t'. body i t = Inr t' \<Longrightarrow> Q t \<Longrightarrow> Q t'"
  shows "Q s'"
  using assms(1,2)
proof (induction xs arbitrary: s)
  case Nil
  then show ?case by simp
next
  case (Cons x xs)
  from Cons.prems(1) obtain v where v: "body x s = Inr v" "forM xs body v = Inr s'"
    by (auto simp: thn_eq_Inr)
  from assms(3) [OF v(1) Cons.prems(2)] have "Q v" .
  with Cons.IH v(2) show ?case by blast
qed

lemma for_loop_preserves:
  assumes "for_loop n body s = Inr s'" and "Q s"
    and "\<And>i t t'. body i t = Inr t' \<Longrightarrow> Q t \<Longrightarrow> Q t'"
  shows "Q s'"
  using assms unfolding for_loop_def by (rule forM_preserves)

lemma same_inputs_refl [simp]: "same_inputs m m"
  by (simp add: same_inputs_def)

lemma reduce_phase_frame:
  assumes "reduce_phase D1D i fld npt s m = Inr m'" and "same_inputs m0 m"
  shows "same_inputs m0 m'"
proof -
  have lane: "same_inputs m0 t'"
    if "(if j = 0 \<and> k = 0
         then thn (for_loop (D1D*D1D) (\<lambda>jj sumv.
                     thn (rd_sh s jj) (\<lambda>s. Inr (sumv + s))) 0) (\<lambda>sumv.
              thn (wr (int_out t) (i + fld * npt) sumv) (\<lambda>out.
              Inr (t\<lparr>int_out := out\<rparr>)))
         else Inr t) = Inr t'" and "same_inputs m0 t" for j k :: int and t t'
    using that
    by (auto simp: thn_eq_Inr wr_def same_inputs_def split: if_splits)
  have row: "same_inputs m0 t'"
    if "for_loop D1D (\<lambda>k m.
         if j = 0 \<and> k = 0
         then thn (for_loop (D1D*D1D) (\<lambda>jj sumv.
                     thn (rd_sh s jj) (\<lambda>s. Inr (sumv + s))) 0) (\<lambda>sumv.
              thn (wr (int_out m) (i + fld * npt) sumv) (\<lambda>out.
              Inr (m\<lparr>int_out := out\<rparr>)))
         else Inr m) t = Inr t'" and "same_inputs m0 t" for j :: int and t t'
    using that(1,2) by (rule for_loop_preserves) (rule lane)
  from assms show ?thesis
    unfolding reduce_phase_def MFEM_FOREACH_THREAD_def
    by (rule for_loop_preserves) (rule row)
qed

lemma kernel_body_frame:
  assumes "kernel_body MD1 D1D Nfields npt p_Np i m = Inr m'" and "same_inputs m0 m"
  shows "same_inputs m0 m'"
proof -
  from assms(1) obtain wtr t where
    loop: "for_loop Nfields (\<lambda>fld (sb, m).
             thn (rd (el m) i) (\<lambda>e.
             let elemOffset = e * p_Np * Nfields + fld * p_Np in
             thn (contract_phase D1D elemOffset (gf_in m) wtr sb) (\<lambda>sb.
             thn (reduce_phase D1D i fld npt sb m) (\<lambda>m.
             Inr (sb, m))))) (replicate (nat (MD1*MD1)) None, m) = Inr t"
    and t: "snd t = m'"
    by (auto simp: kernel_body_def Let_def thn_eq_Inr)
  have "same_inputs m0 (snd t)"
    using loop
  proof (rule for_loop_preserves)
    show "same_inputs m0 (snd (replicate (nat (MD1*MD1)) None, m))" using assms(2) by simp
  next
    fix fld and u u' :: "real option list \<times> memory"
    assume step: "(case u of (sb, m) \<Rightarrow>
             thn (rd (el m) i) (\<lambda>e.
             let elemOffset = e * p_Np * Nfields + fld * p_Np in
             thn (contract_phase D1D elemOffset (gf_in m) wtr sb) (\<lambda>sb.
             thn (reduce_phase D1D i fld npt sb m) (\<lambda>m.
             Inr (sb, m))))) = Inr u'" and u: "same_inputs m0 (snd u)"
    obtain sb m1 where up: "u = (sb, m1)" by (cases u)
    from step up obtain sb' where "reduce_phase D1D i fld npt sb' m1 = Inr (snd u')"
      by (auto simp: thn_eq_Inr Let_def)
    with u up show "same_inputs m0 (snd u')"
      by (auto intro: reduce_phase_frame)
  qed
  with t show ?thesis by simp
qed

lemma kernel_frame:
  assumes "InterpolateLocal3DKernel T_D1D m npt ncomp nel gf_offset pN = Inr m'"
  shows "same_inputs m m'"
proof -
  from assms obtain MD1 D1D p_Np where
    "for_loop npt (kernel_body MD1 D1D ncomp npt p_Np) m = Inr m'"
    by (auto simp: InterpolateLocal3DKernel_def Let_def thn_eq_Inr forall_2D_def)
  then show ?thesis
    by (rule for_loop_preserves) (auto intro: kernel_body_frame)
qed

text \<open>
  Claim C9. Whenever the kernel returns, the nodal field buffer, the element indices, the
  reference coordinates and the two basis tables are what they were before the call;
  the output buffer is the only one written, and it keeps its length.
\<close>

theorem kernel_writes_only_output:
  assumes "InterpolateLocal3DKernel T_D1D m npt ncomp nel gf_offset pN = Inr m'"
  shows "gf_in m' = gf_in m \<and> el m' = el m \<and> r m' = r m \<and> gll1D m' = gll1D m
       \<and> lagcoeff m' = lagcoeff m \<and> length (int_out m') = length (int_out m)"
  using kernel_frame [OF assms] by (simp add: same_inputs_def)

theorem kernel_writes_only_output_witness:
  "InterpolateLocal3DKernel 2
     \<lparr>gf_in = [1, 2, 3, 4, 5, 6, 7, 8], el = [0], r = [0, 0, 0], int_out = [0],
      gll1D = [-1, 1], lagcoeff = [-1/4, 1/4]\<rparr> 1 1 1 8 0
   = Inr \<lparr>gf_in = [1, 2, 3, 4, 5, 6, 7, 8], el = [0], r = [0, 0, 0], int_out = [9/2],
      gll1D = [-1, 1], lagcoeff = [-1/4, 1/4]\<rparr>
   \<and> gf_in \<lparr>gf_in = [1, 2, 3, 4, 5, 6, 7, 8], el = [0], r = [0, 0, 0], int_out = [9/2],
      gll1D = [-1, 1], lagcoeff = [-1/4, 1/4::real]\<rparr> = [1, 2, 3, 4, 5, 6, 7, 8]
   \<and> el \<lparr>gf_in = [1, 2, 3, 4, 5, 6, 7, 8::real], el = [0], r = [0, 0, 0::real], int_out = [9/2::real],
      gll1D = [-1, 1::real], lagcoeff = [-1/4, 1/4::real]\<rparr> = [0]"
proof -
  have run: "InterpolateLocal3DKernel 2
     \<lparr>gf_in = [1, 2, 3, 4, 5, 6, 7, 8], el = [0], r = [0, 0, 0], int_out = [0],
      gll1D = [-1, 1], lagcoeff = [-1/4, 1/4]\<rparr> 1 1 1 8 0
   = Inr \<lparr>gf_in = [1, 2, 3, 4, 5, 6, 7, 8], el = [0], r = [0, 0, 0], int_out = [9/2],
      gll1D = [-1, 1], lagcoeff = [-1/4, 1/4]\<rparr>"
    by (simp add: kernel_eval)
  from kernel_writes_only_output [OF run] run show ?thesis by simp
qed


section \<open>Components are interpolated independently\<close>

lemma concat_uniform_length:
  "\<forall>x \<in> set xss. length x = L \<Longrightarrow> length (concat xss) = length xss * L"
  by (induction xss) simp_all

lemma concat_uniform_nth:
  assumes "\<forall>x \<in> set xss. length x = L" "e < length xss" "t < L"
  shows "concat xss ! (e * L + t) = xss ! e ! t"
  using assms
proof (induction xss arbitrary: e)
  case Nil
  then show ?case by simp
next
  case (Cons x xss)
  show ?case
  proof (cases e)
    case 0
    with Cons.prems show ?thesis by (simp add: nth_append)
  next
    case (Suc e')
    with Cons.prems have "concat xss ! (e' * L + t) = xss ! e' ! t"
      by (intro Cons.IH) simp_all
    with Suc Cons.prems show ?thesis by (simp add: nth_append)
  qed
qed

lemma component_block:
  fixes gf :: "real list"
  assumes P: "0 \<le> P" and c: "0 \<le> c" "c < ncomp" and e: "0 \<le> e" "e < nel"
    and len: "nel * ncomp * P \<le> int (length gf)"
  shows "length (take (nat P) (drop (nat (e * ncomp * P + c * P)) gf)) = nat P"
    and "t < nat P \<Longrightarrow> take (nat P) (drop (nat (e * ncomp * P + c * P)) gf) ! t
           = gf ! (nat (e * ncomp * P + c * P) + t)"
proof -
  have "e * ncomp * P + c * P + P = (e * ncomp + (c + 1)) * P"
    by (simp add: algebra_simps)
  also have "\<dots> \<le> (e * ncomp + ncomp) * P"
    using c P by (intro mult_right_mono) simp_all
  also have "\<dots> = (e + 1) * (ncomp * P)" by (simp add: algebra_simps)
  also have "\<dots> \<le> nel * (ncomp * P)"
    using e c P by (intro mult_right_mono) simp_all
  finally have up: "e * ncomp * P + c * P + P \<le> int (length gf)"
    using len by (simp add: mult.assoc)
  have lo: "0 \<le> e * ncomp * P + c * P" using e c P by simp
  from up lo P have "nat (e * ncomp * P + c * P) + nat P \<le> length gf" by linarith
  then show "length (take (nat P) (drop (nat (e * ncomp * P + c * P)) gf)) = nat P"
    by simp
  show "take (nat P) (drop (nat (e * ncomp * P + c * P)) gf) ! t
           = gf ! (nat (e * ncomp * P + c * P) + t)" if "t < nat P"
    using that \<open>nat (e * ncomp * P + c * P) + nat P \<le> length gf\<close> by simp
qed

lemma component_buffer_length:
  assumes D: "0 \<le> D1D" and c: "0 \<le> c" "c < ncomp"
    and len: "nel * ncomp * D1D^3 \<le> int (length gf)"
  shows "nel * D1D^3 \<le> int (length (component_buffer gf nel ncomp D1D c))"
proof (cases "0 \<le> nel")
  case False
  then have "nel * D1D^3 \<le> 0" using D by (simp add: mult_le_0_iff)
  then show ?thesis by linarith
next
  case True
  have P: "0 \<le> D1D^3" using D by simp
  have "\<forall>x \<in> set (map (\<lambda>e. take (nat (D1D^3)) (drop (nat (int e * ncomp * D1D^3 + c * D1D^3)) gf))
               [0..<nat nel]). length x = nat (D1D^3)"
  proof
    fix x assume "x \<in> set (map (\<lambda>e. take (nat (D1D^3)) (drop (nat (int e * ncomp * D1D^3 + c * D1D^3)) gf))
               [0..<nat nel])"
    then obtain e where e: "e < nat nel"
      and x: "x = take (nat (D1D^3)) (drop (nat (int e * ncomp * D1D^3 + c * D1D^3)) gf)" by auto
    from e have "0 \<le> int e" "int e < nel" by simp_all
    from component_block(1) [OF P c this len] x show "length x = nat (D1D^3)" by simp
  qed
  from concat_uniform_length [OF this]
  have "length (component_buffer gf nel ncomp D1D c) = nat nel * nat (D1D^3)"
    by (simp add: component_buffer_def)
  then have "int (length (component_buffer gf nel ncomp D1D c)) = nel * D1D^3"
    using True P by simp
  then show ?thesis by simp
qed

lemma component_buffer_nth:
  assumes D: "0 \<le> D1D" and c: "0 \<le> c" "c < ncomp" and e: "0 \<le> e" "e < nel"
    and t: "0 \<le> t" "t < D1D^3"
    and len: "nel * ncomp * D1D^3 \<le> int (length gf)"
  shows "component_buffer gf nel ncomp D1D c ! nat (e * D1D^3 + t)
         = gf ! nat (e * ncomp * D1D^3 + c * D1D^3 + t)"
proof -
  let ?P = "D1D^3"
  let ?blocks = "map (\<lambda>e. take (nat ?P) (drop (nat (int e * ncomp * ?P + c * ?P)) gf)) [0..<nat nel]"
  have P: "0 \<le> ?P" using D by simp
  have uni: "\<forall>x \<in> set ?blocks. length x = nat ?P"
  proof
    fix x assume "x \<in> set ?blocks"
    then obtain e' where e': "e' < nat nel"
      and x: "x = take (nat ?P) (drop (nat (int e' * ncomp * ?P + c * ?P)) gf)" by auto
    from e' have "0 \<le> int e'" "int e' < nel" by simp_all
    from component_block(1) [OF P c this len] x show "length x = nat ?P" by simp
  qed
  have en: "nat e < length ?blocks" using e by simp
  have tn: "nat t < nat ?P" using t by linarith
  have "0 \<le> e * ?P" using e P by simp
  then have "nat (e * ?P + t) = nat (e * ?P) + nat t"
    using t by (simp add: nat_add_distrib)
  also have "nat (e * ?P) = nat e * nat ?P"
    using e by (simp add: nat_mult_distrib)
  finally have idx: "nat (e * ?P + t) = nat e * nat ?P + nat t" .
  have "component_buffer gf nel ncomp D1D c ! nat (e * ?P + t) = ?blocks ! nat e ! nat t"
    unfolding component_buffer_def idx using uni en tn by (rule concat_uniform_nth)
  also have "?blocks ! nat e = take (nat ?P) (drop (nat (e * ncomp * ?P + c * ?P)) gf)"
    using e by simp
  also have "\<dots> ! nat t = gf ! (nat (e * ncomp * ?P + c * ?P) + nat t)"
    using tn by (rule component_block(2) [OF P c e len])
  also have "nat (e * ncomp * ?P + c * ?P) + nat t = nat (e * ncomp * ?P + c * ?P + t)"
    using e c t P by (simp add: nat_add_distrib)
  finally show ?thesis .
qed

lemma weight_gf_in [simp]: "weight (m\<lparr>gf_in := g\<rparr>) = weight m"
  by (simp add: weight_def fun_eq_iff)

lemma valid_element:
  assumes "valid_invocation m npt ncomp nel D1D" "0 \<le> i" "i < npt"
  shows "0 \<le> el m ! nat i" "el m ! nat i < nel"
proof -
  from assms have "npt \<le> int (length (el m))"
    and els: "\<forall>e \<in> set (take (nat npt) (el m)). 0 \<le> e \<and> e < nel"
    by (simp_all add: valid_invocation_def)
  with assms have len: "nat i < length (take (nat npt) (el m))" by simp
  from len have "take (nat npt) (el m) ! nat i \<in> set (take (nat npt) (el m))" by (rule nth_mem)
  moreover have "take (nat npt) (el m) ! nat i = el m ! nat i" using assms by simp
  ultimately show "0 \<le> el m ! nat i" "el m ! nat i < nel" using els by auto
qed

lemma interpolant_component:
  assumes v: "valid_invocation m npt ncomp nel D1D" and c: "0 \<le> c" "c < ncomp"
    and i: "0 \<le> i" "i < npt"
  shows "interpolant (m\<lparr>gf_in := component_buffer (gf_in m) nel ncomp D1D c\<rparr>) D1D 1 i 0
         = interpolant m D1D ncomp i c"
proof -
  from v have D: "0 \<le> D1D" and len: "nel * ncomp * D1D^3 \<le> int (length (gf_in m))"
    by (simp_all add: valid_invocation_def)
  note e = valid_element [OF v i]
  have cell: "component_buffer (gf_in m) nel ncomp D1D c
                ! nat (el m ! nat i * D1D^3 * 1 + 0 * D1D^3 + j + k*D1D + l*D1D^2)
              = gf_in m ! nat (el m ! nat i * D1D^3 * ncomp + c * D1D^3 + j + k*D1D + l*D1D^2)"
    if "j \<in> {0..<D1D}" "k \<in> {0..<D1D}" "l \<in> {0..<D1D}" for j k l
  proof -
    from that have jkl: "0 \<le> j" "j < D1D" "0 \<le> k" "k < D1D" "0 \<le> l" "l < D1D" by simp_all
    from tensor_idx_bound [OF jkl]
    have t: "0 \<le> j + k*D1D + l*D1D^2" "j + k*D1D + l*D1D^2 < D1D^3"
      by (simp_all add: power2_eq_square power3_eq_cube mult.assoc)
    have e1: "el m ! nat i * D1D^3 * 1 + 0 * D1D^3 + j + k*D1D + l*D1D^2
        = el m ! nat i * D1D^3 + (j + k*D1D + l*D1D^2)" by simp
    have e2: "el m ! nat i * D1D^3 * ncomp + c * D1D^3 + j + k*D1D + l*D1D^2
        = el m ! nat i * ncomp * D1D^3 + c * D1D^3 + (j + k*D1D + l*D1D^2)" by simp
    show ?thesis
      unfolding e1 e2 by (rule component_buffer_nth [OF D c e t len])
  qed
  let ?m1 = "m\<lparr>gf_in := component_buffer (gf_in m) nel ncomp D1D c\<rparr>"
  show ?thesis
    unfolding interpolant_def
  proof (intro sum.cong refl)
    fix j k l
    assume jkl: "j \<in> {0..<D1D}" "k \<in> {0..<D1D}" "l \<in> {0..<D1D}"
    have "gf_in ?m1 ! nat (el ?m1 ! nat i * D1D^3 * 1 + 0 * D1D^3 + j + k*D1D + l*D1D^2)
        = component_buffer (gf_in m) nel ncomp D1D c
            ! nat (el m ! nat i * D1D^3 * 1 + 0 * D1D^3 + j + k*D1D + l*D1D^2)"
      by simp
    also note cell [OF jkl]
    finally show "gf_in ?m1 ! nat (el ?m1 ! nat i * D1D^3 * 1 + 0 * D1D^3 + j + k*D1D + l*D1D^2)
          * weight ?m1 D1D i 0 j * weight ?m1 D1D i 1 k * weight ?m1 D1D i 2 l
        = gf_in m ! nat (el m ! nat i * D1D^3 * ncomp + c * D1D^3 + j + k*D1D + l*D1D^2)
          * weight m D1D i 0 j * weight m D1D i 1 k * weight m D1D i 2 l"
      by (simp only: weight_gf_in)
  qed
qed

lemma valid_component:
  assumes v: "valid_invocation m npt ncomp nel D1D" and c: "0 \<le> c" "c < ncomp"
  shows "valid_invocation (m\<lparr>gf_in := component_buffer (gf_in m) nel ncomp D1D c\<rparr>) npt 1 nel D1D"
proof -
  from v have D: "0 \<le> D1D" and len: "nel * ncomp * D1D^3 \<le> int (length (gf_in m))"
    and out: "npt * ncomp \<le> int (length (int_out m))"
    by (simp_all add: valid_invocation_def)
  have "npt \<le> int (length (int_out m))"
  proof (cases "0 \<le> npt")
    case True
    then have "npt * 1 \<le> npt * ncomp" using c by (intro mult_left_mono) simp_all
    with out show ?thesis by simp
  next
    case False
    then show ?thesis by simp
  qed
  moreover note component_buffer_length [OF D c len]
  ultimately show ?thesis using v by (simp add: valid_invocation_def)
qed

text \<open>
  Claim C7. With \<open>ncomp = 3\<close> and a component \<open>c \<in> {0, 1, 2}\<close>, the values the kernel
  writes to \<open>int_out[i + c * npt]\<close> are the values a single-component invocation writes to
  \<open>int_out[i]\<close> when it is given the sub-buffer of component \<open>c\<close> and otherwise the same
  arguments. Both invocations return normally.
\<close>

theorem multi_component_consistency:
  assumes "valid_invocation m npt 3 nel D1D"
    and "T_D1D = D1D \<or> (T_D1D = 0 \<and> pN = D1D)"
    and "0 \<le> c" "c < 3"
  shows "\<exists>m3 m1.
           InterpolateLocal3DKernel T_D1D m npt 3 nel gf_offset pN = Inr m3
         \<and> InterpolateLocal3DKernel T_D1D
             (m\<lparr>gf_in := component_buffer (gf_in m) nel 3 D1D c\<rparr>) npt 1 nel gf_offset pN = Inr m1
         \<and> (\<forall>i. 0 \<le> i \<and> i < npt \<longrightarrow> int_out m3 ! nat (i + c * npt) = int_out m1 ! nat i)"
proof -
  let ?m1 = "m\<lparr>gf_in := component_buffer (gf_in m) nel 3 D1D c\<rparr>"
  from assms(1) have D: "0 < D1D" by (simp add: valid_invocation_def)
  note v1 = valid_component [OF assms(1,3,4)]
  from kernel_result [OF assms(1,2), of gf_offset]
  obtain out3 where k3: "InterpolateLocal3DKernel T_D1D m npt 3 nel gf_offset pN = Inr (m\<lparr>int_out := out3\<rparr>)"
    and o3: "\<forall>i fld. 0 \<le> i \<and> i < npt \<and> 0 \<le> fld \<and> fld < 3 \<longrightarrow>
             out3 ! nat (i + fld * npt) = factorized m D1D 3 i fld"
    by blast
  from kernel_result [OF v1 assms(2), of gf_offset]
  obtain out1 where k1: "InterpolateLocal3DKernel T_D1D ?m1 npt 1 nel gf_offset pN = Inr (?m1\<lparr>int_out := out1\<rparr>)"
    and o1: "\<forall>i fld. 0 \<le> i \<and> i < npt \<and> 0 \<le> fld \<and> fld < 1 \<longrightarrow>
             out1 ! nat (i + fld * npt) = factorized ?m1 D1D 1 i fld"
    by blast
  have "out3 ! nat (i + c * npt) = out1 ! nat i" if i: "0 \<le> i" "i < npt" for i
  proof -
    from o3 i assms(3,4) have "out3 ! nat (i + c * npt) = factorized m D1D 3 i c"
      by blast
    also have "\<dots> = interpolant m D1D 3 i c"
      by (rule factorized_eq_interpolant [OF D])
    also have "\<dots> = interpolant ?m1 D1D 1 i 0"
      by (rule interpolant_component [OF assms(1,3,4) i, symmetric])
    also have "\<dots> = factorized ?m1 D1D 1 i 0"
      by (rule factorized_eq_interpolant [OF D, symmetric])
    also have "\<dots> = out1 ! nat (i + 0 * npt)"
      using o1 [rule_format, of i 0] i by simp
    finally show ?thesis by simp
  qed
  with k3 k1 show ?thesis by simp
qed

theorem multi_component_consistency_witness:
  "valid_invocation \<lparr>gf_in = [1, 2, 3, 4, 5, 6, 7, 8, 9, 10, 11, 12, 13, 14, 15, 16, 17, 18, 19, 20, 21, 22, 23, 24],
       el = [0], r = [0, 0, 0], int_out = [0, 0, 0], gll1D = [-1, 1], lagcoeff = [-1/4, 1/4]\<rparr> 1 3 1 2
   \<and> (\<exists>m3 m1.
        InterpolateLocal3DKernel 2 \<lparr>gf_in = [1, 2, 3, 4, 5, 6, 7, 8, 9, 10, 11, 12, 13, 14, 15, 16, 17, 18, 19, 20, 21, 22, 23, 24],
            el = [0], r = [0, 0, 0], int_out = [0, 0, 0], gll1D = [-1, 1], lagcoeff = [-1/4, 1/4]\<rparr> 1 3 1 8 0 = Inr m3
      \<and> InterpolateLocal3DKernel 2 \<lparr>gf_in = [9, 10, 11, 12, 13, 14, 15, 16],
            el = [0], r = [0, 0, 0], int_out = [0, 0, 0], gll1D = [-1, 1], lagcoeff = [-1/4, 1/4]\<rparr> 1 1 1 8 0 = Inr m1
      \<and> int_out m3 ! nat (0 + 1 * 1) = int_out m1 ! nat 0)"
proof -
  let ?m = "\<lparr>gf_in = [1, 2, 3, 4, 5, 6, 7, 8, 9, 10, 11, 12, 13, 14, 15, 16, 17, 18, 19, 20, 21, 22, 23, 24],
       el = [0], r = [0, 0, 0], int_out = [0, 0, 0::real], gll1D = [-1, 1], lagcoeff = [-1/4, 1/4::real]\<rparr>"
  have v: "valid_invocation ?m 1 3 1 2"
    by (simp add: valid_invocation_def)
  have p: "(2::int) = 2 \<or> ((2::int) = 0 \<and> (0::int) = 2)" by simp
  have cb: "component_buffer (gf_in ?m) 1 3 2 1 = [9, 10, 11, 12, 13, 14, 15, 16]"
    by (simp add: component_buffer_def)
  from multi_component_consistency [OF v p, of 1 8]
  obtain m3 m1 where "InterpolateLocal3DKernel 2 ?m 1 3 1 8 0 = Inr m3"
    "InterpolateLocal3DKernel 2 (?m\<lparr>gf_in := component_buffer (gf_in ?m) 1 3 2 1\<rparr>) 1 1 1 8 0 = Inr m1"
    "\<forall>i. 0 \<le> i \<and> i < 1 \<longrightarrow> int_out m3 ! nat (i + 1 * 1) = int_out m1 ! nat i"
    by auto
  then show ?thesis using v unfolding cb by auto
qed


section \<open>The specialised and the generic path\<close>

lemma agree_nth: "agree n a b \<Longrightarrow> p < n \<Longrightarrow> a ! p = b ! p"
  by (metis agree_def nth_take)

lemma rd_sh_agree:
  assumes "agree n a b" "0 \<le> p" "p < int n"
  shows "rd_sh a p = rd_sh b p"
proof -
  from assms have "nat p < n" by simp
  with assms(1) have "a ! nat p = b ! nat p" by (rule agree_nth)
  moreover from assms have "p < int (length a)" "p < int (length b)"
    by (simp_all add: agree_def)
  ultimately show ?thesis using assms(2) by (simp add: rd_sh_def rd_def)
qed

lemma wr_sh_agree:
  assumes "agree n a b" "0 \<le> p" "p < int n"
  shows "rel_sum (=) (agree n) (wr_sh a p v) (wr_sh b p v)"
proof -
  from assms have "p < int (length a)" "p < int (length b)"
    by (simp_all add: agree_def)
  moreover have "agree n (a[nat p := Some v]) (b[nat p := Some v])"
    using assms(1) by (simp add: agree_def take_update_swap)
  ultimately show ?thesis using assms(2) by (simp add: wr_sh_def wr_def)
qed

lemma thn_rel:
  assumes "rel_sum (=) R m m'" and "\<And>v v'. R v v' \<Longrightarrow> rel_sum (=) Q (f v) (f' v')"
  shows "rel_sum (=) Q (thn m f) (thn m' f')"
  using assms by (cases m; cases m') simp_all

lemma thn_rel_same:
  assumes "\<And>v. rel_sum (=) Q (f v) (f' v)"
  shows "rel_sum (=) Q (thn m f) (thn m f')"
  using assms by (cases m) simp_all

lemma forM_rel:
  assumes "\<And>i s t. i \<in> set xs \<Longrightarrow> R s t \<Longrightarrow> rel_sum (=) R (f i s) (g i t)" and "R s t"
  shows "rel_sum (=) R (forM xs f s) (forM xs g t)"
  using assms
proof (induction xs arbitrary: s t)
  case Nil
  then show ?case by simp
next
  case (Cons x xs)
  have "rel_sum (=) R (f x s) (g x t)" using Cons.prems by simp
  moreover have "rel_sum (=) R (forM xs f v) (forM xs g v')" if "R v v'" for v v'
    using Cons.prems(1) that by (intro Cons.IH) simp_all
  ultimately show ?case by (simp add: thn_rel)
qed

lemma for_loop_rel:
  assumes "\<And>i s t. 0 \<le> i \<Longrightarrow> i < n \<Longrightarrow> R s t \<Longrightarrow> rel_sum (=) R (f i s) (g i t)" and "R s t"
  shows "rel_sum (=) R (for_loop n f s) (for_loop n g t)"
  unfolding for_loop_def using assms by (intro forM_rel) simp_all

lemma lagrange_eval_agree:
  assumes "agree n a b" "0 \<le> off + i" "off + i < int n"
  shows "rel_sum (=) (agree n) (lagrange_eval (a, off) x i p_Nq z c) (lagrange_eval (b, off) x i p_Nq z c)"
  unfolding lagrange_eval_def fst_conv snd_conv
  by (intro thn_rel_same wr_sh_agree assms)

lemma basis_phase_agree:
  assumes "agree (nat (3 * D1D)) a b"
  shows "rel_sum (=) (agree (nat (3 * D1D))) (basis_phase i D1D m a) (basis_phase i D1D m b)"
  unfolding basis_phase_def MFEM_FOREACH_THREAD_def
proof (intro for_loop_rel assms)
  fix j k :: int and s t :: "real option list"
  assume j: "0 \<le> j" "j < D1D" and k: "0 \<le> k" "k < D1D" and st: "agree (nat (3 * D1D)) s t"
  have first: "rel_sum (=) (agree (nat (3 * D1D)))
     (if k \<le> 2 then thn (rd (r m) (3*i + k)) (\<lambda>x. lagrange_eval (s, k*D1D) x j D1D (gll1D m) (lagcoeff m)) else Inr s)
     (if k \<le> 2 then thn (rd (r m) (3*i + k)) (\<lambda>x. lagrange_eval (t, k*D1D) x j D1D (gll1D m) (lagcoeff m)) else Inr t)"
  proof (cases "k \<le> 2")
    case True
    then have "k * D1D \<le> 2 * D1D" using j by (intro mult_right_mono) simp_all
    then have "k * D1D + j < 3 * D1D" using j by linarith
    then have "0 \<le> k * D1D + j" "k * D1D + j < int (nat (3 * D1D))" using j k by simp_all
    with True st show ?thesis by (simp add: thn_rel_same lagrange_eval_agree)
  next
    case False
    with st show ?thesis by simp
  qed
  have second: "rel_sum (=) (agree (nat (3 * D1D)))
     (if D1D = 2 \<and> k = 1 then thn (rd (r m) (3*i + 2)) (\<lambda>x. lagrange_eval (s', 2*D1D) x j D1D (gll1D m) (lagcoeff m)) else Inr s')
     (if D1D = 2 \<and> k = 1 then thn (rd (r m) (3*i + 2)) (\<lambda>x. lagrange_eval (t', 2*D1D) x j D1D (gll1D m) (lagcoeff m)) else Inr t')"
    if "agree (nat (3 * D1D)) s' t'" for s' t'
  proof (cases "D1D = 2 \<and> k = 1")
    case True
    have "0 \<le> 2 * D1D + j" "2 * D1D + j < int (nat (3 * D1D))" using j by simp_all
    then have "rel_sum (=) (agree (nat (3 * D1D)))
        (thn (rd (r m) (3*i + 2)) (\<lambda>x. lagrange_eval (s', 2*D1D) x j D1D (gll1D m) (lagcoeff m)))
        (thn (rd (r m) (3*i + 2)) (\<lambda>x. lagrange_eval (t', 2*D1D) x j D1D (gll1D m) (lagcoeff m)))"
      by (intro thn_rel_same lagrange_eval_agree that)
    then show ?thesis unfolding if_P [OF True] .
  next
    case False
    show ?thesis unfolding if_not_P [OF False] using that by simp
  qed
  from first second show "rel_sum (=) (agree (nat (3 * D1D)))
     (thn (if k \<le> 2 then thn (rd (r m) (3*i + k)) (\<lambda>x. lagrange_eval (s, k*D1D) x j D1D (gll1D m) (lagcoeff m)) else Inr s)
       (\<lambda>wtr. if D1D = 2 \<and> k = 1 then thn (rd (r m) (3*i + 2)) (\<lambda>x. lagrange_eval (wtr, 2*D1D) x j D1D (gll1D m) (lagcoeff m)) else Inr wtr))
     (thn (if k \<le> 2 then thn (rd (r m) (3*i + k)) (\<lambda>x. lagrange_eval (t, k*D1D) x j D1D (gll1D m) (lagcoeff m)) else Inr t)
       (\<lambda>wtr. if D1D = 2 \<and> k = 1 then thn (rd (r m) (3*i + 2)) (\<lambda>x. lagrange_eval (wtr, 2*D1D) x j D1D (gll1D m) (lagcoeff m)) else Inr wtr))"
    by (rule thn_rel)
qed

lemma contract_phase_agree:
  assumes w: "agree (nat (3 * D1D)) wtr wtr'" and s: "agree (nat (D1D * D1D)) s s'"
  shows "rel_sum (=) (agree (nat (D1D * D1D)))
           (contract_phase D1D elemOffset gf wtr s) (contract_phase D1D elemOffset gf wtr' s')"
  unfolding contract_phase_def MFEM_FOREACH_THREAD_def
proof (intro for_loop_rel s)
  fix j k :: int and u u' :: "real option list"
  assume j: "0 \<le> j" "j < D1D" and k: "0 \<le> k" "k < D1D" and uu: "agree (nat (D1D * D1D)) u u'"
  let ?n = "nat (D1D * D1D)"
  have p: "0 \<le> j + k*D1D" "j + k*D1D < int ?n"
    using lane_idx_bound [OF j k] by simp_all
  have n3: "int (nat (3 * D1D)) = 3 * D1D" using j by simp
  have b1: "0 \<le> D1D + k" "D1D + k < int (nat (3 * D1D))"
    unfolding n3 using j k by linarith+
  have b0: "j < int (nat (3 * D1D))"
    unfolding n3 using j by linarith
  have w1: "rd_sh wtr (D1D + k) = rd_sh wtr' (D1D + k)"
    using w b1 by (rule rd_sh_agree)
  have w0: "rd_sh wtr j = rd_sh wtr' j"
    using w j(1) b0 by (rule rd_sh_agree)
  have last: "rel_sum (=) (agree ?n)
      (thn (rd_sh v (j + k*D1D)) (\<lambda>s. thn (rd_sh wtr (D1D + k)) (\<lambda>w1. thn (rd_sh wtr j) (\<lambda>w0.
         wr_sh v (j + k*D1D) (s * (w1 * w0))))))
      (thn (rd_sh v' (j + k*D1D)) (\<lambda>s. thn (rd_sh wtr' (D1D + k)) (\<lambda>w1. thn (rd_sh wtr' j) (\<lambda>w0.
         wr_sh v' (j + k*D1D) (s * (w1 * w0))))))"
    if vv: "agree ?n v v'" for v v'
    unfolding w1 w0 rd_sh_agree [OF vv p]
    by (intro thn_rel_same wr_sh_agree vv p)
  have inner: "rel_sum (=) (agree ?n)
      (thn (rd_sh v (j + k*D1D)) (\<lambda>s. thn (rd gf (elemOffset + j + k*D1D + l*D1D*D1D)) (\<lambda>g.
         thn (rd_sh wtr (2*D1D + l)) (\<lambda>w. wr_sh v (j + k*D1D) (s + g * w)))))
      (thn (rd_sh v' (j + k*D1D)) (\<lambda>s. thn (rd gf (elemOffset + j + k*D1D + l*D1D*D1D)) (\<lambda>g.
         thn (rd_sh wtr' (2*D1D + l)) (\<lambda>w. wr_sh v' (j + k*D1D) (s + g * w)))))"
    if vv: "agree ?n v v'" and l: "0 \<le> l" "l < D1D" for v v' l
  proof -
    have b2: "0 \<le> 2*D1D + l" "2*D1D + l < int (nat (3 * D1D))"
      unfolding n3 using l by linarith+
    have w2: "rd_sh wtr (2*D1D + l) = rd_sh wtr' (2*D1D + l)"
      using w b2 by (rule rd_sh_agree)
    show ?thesis
      unfolding w2 rd_sh_agree [OF vv p]
      by (intro thn_rel_same wr_sh_agree vv p)
  qed
  show "rel_sum (=) (agree ?n)
         (thn (wr_sh u (j + k*D1D) 0) (\<lambda>sb.
         thn (for_loop D1D (\<lambda>l sb.
                thn (rd_sh sb (j + k*D1D)) (\<lambda>s.
                thn (rd gf (elemOffset + j + k*D1D + l*D1D*D1D)) (\<lambda>g.
                thn (rd_sh wtr (2*D1D + l)) (\<lambda>w.
                wr_sh sb (j + k*D1D) (s + g * w))))) sb) (\<lambda>sb.
         thn (rd_sh sb (j + k*D1D)) (\<lambda>s.
         thn (rd_sh wtr (D1D + k)) (\<lambda>w1.
         thn (rd_sh wtr j) (\<lambda>w0.
         wr_sh sb (j + k*D1D) (s * (w1 * w0))))))))
         (thn (wr_sh u' (j + k*D1D) 0) (\<lambda>sb.
         thn (for_loop D1D (\<lambda>l sb.
                thn (rd_sh sb (j + k*D1D)) (\<lambda>s.
                thn (rd gf (elemOffset + j + k*D1D + l*D1D*D1D)) (\<lambda>g.
                thn (rd_sh wtr' (2*D1D + l)) (\<lambda>w.
                wr_sh sb (j + k*D1D) (s + g * w))))) sb) (\<lambda>sb.
         thn (rd_sh sb (j + k*D1D)) (\<lambda>s.
         thn (rd_sh wtr' (D1D + k)) (\<lambda>w1.
         thn (rd_sh wtr' j) (\<lambda>w0.
         wr_sh sb (j + k*D1D) (s * (w1 * w0))))))))"
  proof (rule thn_rel [OF wr_sh_agree [OF uu p]])
    fix v v' :: "real option list"
    assume vv: "agree ?n v v'"
    have "rel_sum (=) (agree ?n)
       (for_loop D1D (\<lambda>l sb.
                thn (rd_sh sb (j + k*D1D)) (\<lambda>s.
                thn (rd gf (elemOffset + j + k*D1D + l*D1D*D1D)) (\<lambda>g.
                thn (rd_sh wtr (2*D1D + l)) (\<lambda>w.
                wr_sh sb (j + k*D1D) (s + g * w))))) v)
       (for_loop D1D (\<lambda>l sb.
                thn (rd_sh sb (j + k*D1D)) (\<lambda>s.
                thn (rd gf (elemOffset + j + k*D1D + l*D1D*D1D)) (\<lambda>g.
                thn (rd_sh wtr' (2*D1D + l)) (\<lambda>w.
                wr_sh sb (j + k*D1D) (s + g * w))))) v')"
      using vv by (intro for_loop_rel inner)
    then show "rel_sum (=) (agree ?n)
         (thn (for_loop D1D (\<lambda>l sb.
                thn (rd_sh sb (j + k*D1D)) (\<lambda>s.
                thn (rd gf (elemOffset + j + k*D1D + l*D1D*D1D)) (\<lambda>g.
                thn (rd_sh wtr (2*D1D + l)) (\<lambda>w.
                wr_sh sb (j + k*D1D) (s + g * w))))) v) (\<lambda>sb.
         thn (rd_sh sb (j + k*D1D)) (\<lambda>s.
         thn (rd_sh wtr (D1D + k)) (\<lambda>w1.
         thn (rd_sh wtr j) (\<lambda>w0.
         wr_sh sb (j + k*D1D) (s * (w1 * w0)))))))
         (thn (for_loop D1D (\<lambda>l sb.
                thn (rd_sh sb (j + k*D1D)) (\<lambda>s.
                thn (rd gf (elemOffset + j + k*D1D + l*D1D*D1D)) (\<lambda>g.
                thn (rd_sh wtr' (2*D1D + l)) (\<lambda>w.
                wr_sh sb (j + k*D1D) (s + g * w))))) v') (\<lambda>sb.
         thn (rd_sh sb (j + k*D1D)) (\<lambda>s.
         thn (rd_sh wtr' (D1D + k)) (\<lambda>w1.
         thn (rd_sh wtr' j) (\<lambda>w0.
         wr_sh sb (j + k*D1D) (s * (w1 * w0)))))))"
      by (rule thn_rel) (rule last)
  qed
qed

lemma reduce_phase_agree:
  assumes "agree (nat (D1D * D1D)) s s'"
  shows "reduce_phase D1D i fld npt s m = reduce_phase D1D i fld npt s' m"
proof -
  have "rel_sum (=) (=)
      (for_loop (D1D*D1D) (\<lambda>jj sumv. thn (rd_sh s jj) (\<lambda>s. Inr (sumv + s))) (0::real))
      (for_loop (D1D*D1D) (\<lambda>jj sumv. thn (rd_sh s' jj) (\<lambda>s. Inr (sumv + s))) 0)"
  proof (intro for_loop_rel refl)
    fix jj :: int and a b :: real
    assume "0 \<le> jj" "jj < D1D * D1D" "a = b"
    with rd_sh_agree [OF assms, of jj]
    show "rel_sum (=) (=) (thn (rd_sh s jj) (\<lambda>s. Inr (a + s))) (thn (rd_sh s' jj) (\<lambda>s. Inr (b + s)))"
      by (simp add: sum.rel_eq)
  qed
  then have eq: "for_loop (D1D*D1D) (\<lambda>jj sumv. thn (rd_sh s jj) (\<lambda>s. Inr (sumv + s))) (0::real)
      = for_loop (D1D*D1D) (\<lambda>jj sumv. thn (rd_sh s' jj) (\<lambda>s. Inr (sumv + s))) 0"
    by (simp add: sum.rel_eq)
  show ?thesis by (simp only: reduce_phase_def eq)
qed

lemma agree_replicate:
  "n \<le> k \<Longrightarrow> n \<le> k' \<Longrightarrow> agree n (replicate k x) (replicate k' x)"
  by (simp add: agree_def min_def)

lemma kernel_body_agree:
  assumes D: "0 \<le> D1D" "D1D \<le> MD1" "D1D \<le> MD1'"
  shows "kernel_body MD1 D1D Nfields npt p_Np i m = kernel_body MD1' D1D Nfields npt p_Np i m"
proof -
  let ?n3 = "nat (3 * D1D)" and ?n2 = "nat (D1D * D1D)"
  let ?R = "\<lambda>(u :: real option list \<times> memory) u'. agree ?n2 (fst u) (fst u') \<and> snd u = snd u'"
  have w0: "agree ?n3 (replicate (nat (3 * MD1)) None) (replicate (nat (3 * MD1')) (None :: real option))"
    using D by (intro agree_replicate) simp_all
  have sq: "nat (D1D * D1D) \<le> nat (M * M)" if "D1D \<le> M" for M
  proof -
    from that D have "D1D * D1D \<le> M * M" by (intro mult_mono) simp_all
    then show ?thesis by simp
  qed
  have s0: "?R (replicate (nat (MD1 * MD1)) None, m) (replicate (nat (MD1' * MD1')) None, m)"
    using D by (simp add: agree_replicate sq)
  have body: "rel_sum (=) ?R
      (case u of (sb, m) \<Rightarrow>
             thn (rd (el m) i) (\<lambda>e.
             let elemOffset = e * p_Np * Nfields + fld * p_Np in
             thn (contract_phase D1D elemOffset (gf_in m) wtr sb) (\<lambda>sb.
             thn (reduce_phase D1D i fld npt sb m) (\<lambda>m.
             Inr (sb, m)))))
      (case u' of (sb, m) \<Rightarrow>
             thn (rd (el m) i) (\<lambda>e.
             let elemOffset = e * p_Np * Nfields + fld * p_Np in
             thn (contract_phase D1D elemOffset (gf_in m) wtr' sb) (\<lambda>sb.
             thn (reduce_phase D1D i fld npt sb m) (\<lambda>m.
             Inr (sb, m)))))"
    if w: "agree ?n3 wtr wtr'" and uu: "?R u u'" for wtr wtr' u u' fld
  proof -
    obtain sb m1 where u: "u = (sb, m1)" by (cases u)
    obtain sb' m1' where u': "u' = (sb', m1')" by (cases u')
    from uu u u' have sb: "agree ?n2 sb sb'" and m1: "m1' = m1" by simp_all
    have red: "rel_sum (=) ?R
        (thn (reduce_phase D1D i fld npt v m1) (\<lambda>m. Inr (v, m)))
        (thn (reduce_phase D1D i fld npt v' m1) (\<lambda>m. Inr (v', m)))"
      if vv: "agree ?n2 v v'" for v v'
      unfolding reduce_phase_agree [OF vv]
      by (rule thn_rel_same) (simp add: vv)
    show ?thesis
      unfolding u u' m1 prod.case Let_def
      by (intro thn_rel_same thn_rel [OF contract_phase_agree [OF w sb]] red)
  qed
  have "rel_sum (=) (=) (kernel_body MD1 D1D Nfields npt p_Np i m)
          (kernel_body MD1' D1D Nfields npt p_Np i m)"
    unfolding kernel_body_def Let_def
  proof (rule thn_rel [OF basis_phase_agree [OF w0]])
    fix wtr wtr' :: "real option list"
    assume w: "agree ?n3 wtr wtr'"
    have "rel_sum (=) ?R
       (for_loop Nfields (\<lambda>fld (sb, m).
             thn (rd (el m) i) (\<lambda>e.
             thn (contract_phase D1D (e * p_Np * Nfields + fld * p_Np) (gf_in m) wtr sb) (\<lambda>sb.
             thn (reduce_phase D1D i fld npt sb m) (\<lambda>m.
             Inr (sb, m))))) (replicate (nat (MD1 * MD1)) None, m))
       (for_loop Nfields (\<lambda>fld (sb, m).
             thn (rd (el m) i) (\<lambda>e.
             thn (contract_phase D1D (e * p_Np * Nfields + fld * p_Np) (gf_in m) wtr' sb) (\<lambda>sb.
             thn (reduce_phase D1D i fld npt sb m) (\<lambda>m.
             Inr (sb, m))))) (replicate (nat (MD1' * MD1')) None, m))"
      using body [OF w, unfolded Let_def] s0 by (intro for_loop_rel)
    then show "rel_sum (=) (=)
       (thn (for_loop Nfields (\<lambda>fld (sb, m).
             thn (rd (el m) i) (\<lambda>e.
             thn (contract_phase D1D (e * p_Np * Nfields + fld * p_Np) (gf_in m) wtr sb) (\<lambda>sb.
             thn (reduce_phase D1D i fld npt sb m) (\<lambda>m.
             Inr (sb, m))))) (replicate (nat (MD1 * MD1)) None, m)) (\<lambda>(sb, m). Inr m))
       (thn (for_loop Nfields (\<lambda>fld (sb, m).
             thn (rd (el m) i) (\<lambda>e.
             thn (contract_phase D1D (e * p_Np * Nfields + fld * p_Np) (gf_in m) wtr' sb) (\<lambda>sb.
             thn (reduce_phase D1D i fld npt sb m) (\<lambda>m.
             Inr (sb, m))))) (replicate (nat (MD1' * MD1')) None, m)) (\<lambda>(sb, m). Inr m))"
      by (rule thn_rel) auto
  qed
  then show ?thesis by (simp add: sum.rel_eq)
qed

lemma kernel_paths_agree:
  assumes "1 \<le> d" "d \<le> 10"
  shows "InterpolateLocal3DKernel d m npt ncomp nel gf_offset pN
         = InterpolateLocal3DKernel 0 m npt ncomp nel gf_offset d"
proof -
  have "kernel_body d d ncomp npt (d*d*d) = kernel_body 10 d ncomp npt (d*d*d)"
    using assms by (intro ext kernel_body_agree) simp_all
  with assms show ?thesis
    by (simp add: InterpolateLocal3DKernel_def)
qed



text \<open>
  The dispatch of lines 134 to 151 is therefore transparent: whatever the degree, the
  call behaves as the generic kernel does.
\<close>

lemma InterpolateLocal3_generic:
  assumes "npt \<noteq> 0" "ncomp \<noteq> 0"
  shows "InterpolateLocal3 m npt ncomp nel dof1Dsol
         = InterpolateLocal3DKernel 0 m npt ncomp nel (int (length (gf_in m)) sdiv ncomp) dof1Dsol"
  using assms
    kernel_paths_agree [of 2 m npt ncomp nel _ 0] kernel_paths_agree [of 3 m npt ncomp nel _ 0]
    kernel_paths_agree [of 4 m npt ncomp nel _ 0] kernel_paths_agree [of 5 m npt ncomp nel _ 0]
  by (simp add: InterpolateLocal3_def Let_def)

end
